theory Spec2Isabelle
  imports Main "HOL-Library.Word" "HOL-Library.AList"
begin

section \<open>JavaScript values handled by the driver\<close>

text \<open>
  The driver of \<^verbatim>\<open>src/rtt-module.js\<close> inspects the action descriptors of a view
  dynamically (\<^verbatim>\<open>typeof\<close>, \<^verbatim>\<open>===\<close>, \<^verbatim>\<open>.length\<close>,
  \<^verbatim>\<open>for ... in\<close>, \<^verbatim>\<open>isNaN\<close>), so descriptors, roles, seeds and arguments are
  values of one type of JavaScript data.  Numbers are the integers plus \<^verbatim>\<open>NaN\<close>; the
  driver only compares numbers with \<^verbatim>\<open>0\<close> and asks for their type, so fractions and
  infinities are left out.  An object is the list of its own enumerable properties in the
  order \<^verbatim>\<open>Object.entries\<close> lists them; a well-formed object has distinct keys.
\<close>

datatype jsval =
    JUndefined
  | JNull
  | JBool bool
  | JNum int
  | JNaN
  | JStr string
  | JArr "jsval list"
  | JObj "(string \<times> jsval) list"

type_synonym jsobj = "(string \<times> jsval) list"

text \<open>
  What the language, the byte provider or the rules engine throw: an error object, given
  by its class and message, or any other value thrown as it is (\<^verbatim>\<open>throw null\<close>).
\<close>

datatype exn = Error string | TypeError string | Value jsval

subsection \<open>Number to string (integers), as in property keys and template strings\<close>

fun show_nat :: "nat \<Rightarrow> string" where
  "show_nat n =
     (if n < 10 then [''0123456789'' ! n]
      else show_nat (n div 10) @ [''0123456789'' ! (n mod 10)])"

declare show_nat.simps [simp del]

definition show_int :: "int \<Rightarrow> string" where
  "show_int i = (if i < 0 then CHR ''-'' # show_nat (nat (- i)) else show_nat (nat i))"

subsection \<open>\<^verbatim>\<open>isNaN\<close> of a string: the string-to-number grammar\<close>

text \<open>
  A string is a list of code units below 256; the white space among them is the space, the
  no-break space and the five control characters from tab to carriage return.
\<close>

definition is_ws :: "char \<Rightarrow> bool" where
  "is_ws c =
     List.member [CHR '' '', CHR 0x09, CHR 0x0A, CHR 0x0B, CHR 0x0C, CHR 0x0D, CHR 0xA0] c"

definition trim :: "string \<Rightarrow> string" where
  "trim s = rev (dropWhile is_ws (rev (dropWhile is_ws s)))"

definition digits_of :: "string \<Rightarrow> string \<Rightarrow> bool" where
  "digits_of alphabet s = (s \<noteq> [] \<and> list_all (List.member alphabet) s)"

definition strip_sign :: "string \<Rightarrow> string" where
  "strip_sign s =
     (case s of
        c # r \<Rightarrow> if c = CHR ''+'' \<or> c = CHR ''-'' then r else s
      | [] \<Rightarrow> s)"

definition exponent_ok :: "string \<Rightarrow> bool" where
  "exponent_ok s =
     (case s of
        [] \<Rightarrow> True
      | c # r \<Rightarrow> (c = CHR ''e'' \<or> c = CHR ''E'') \<and> digits_of ''0123456789'' (strip_sign r))"

definition decimal_ok :: "string \<Rightarrow> bool" where
  "decimal_ok s =
     (let ip = takeWhile (List.member ''0123456789'') s;
          r1 = dropWhile (List.member ''0123456789'') s
      in case r1 of
           c # r \<Rightarrow>
             if c = CHR ''.'' then
               (let fp = takeWhile (List.member ''0123456789'') r;
                    r2 = dropWhile (List.member ''0123456789'') r
                in (ip \<noteq> [] \<or> fp \<noteq> []) \<and> exponent_ok r2)
             else ip \<noteq> [] \<and> exponent_ok r1
         | [] \<Rightarrow> ip \<noteq> [])"

definition radix_ok :: "string \<Rightarrow> bool" where
  "radix_ok s =
     (case s of
        a # b # r \<Rightarrow>
          a = CHR ''0'' \<and>
          (if b = CHR ''x'' \<or> b = CHR ''X'' then digits_of ''0123456789abcdefABCDEF'' r
           else if b = CHR ''o'' \<or> b = CHR ''O'' then digits_of ''01234567'' r
           else if b = CHR ''b'' \<or> b = CHR ''B'' then digits_of ''01'' r
           else False)
      | _ \<Rightarrow> False)"

definition isNaN_str :: "string \<Rightarrow> bool" where
  "isNaN_str s =
     (let t = trim s
      in \<not> (t = [] \<or> radix_ok t \<or> strip_sign t = ''Infinity'' \<or> decimal_ok (strip_sign t)))"

subsection \<open>Property reads, enumeration and conversion to a property key\<close>

definition index_of_key :: "nat \<Rightarrow> string \<Rightarrow> nat option" where
  "index_of_key n k = find (\<lambda>i. show_nat i = k) [0..<n]"

text \<open>
  \<^verbatim>\<open>v[k]\<close> for a string key: reading a property of \<^verbatim>\<open>undefined\<close> or
  \<^verbatim>\<open>null\<close> throws a TypeError; a missing property reads as \<^verbatim>\<open>undefined\<close>.
  Properties inherited from the prototypes (methods) are not data and are left out.
\<close>

fun js_get :: "jsval \<Rightarrow> string \<Rightarrow> exn + jsval" where
  "js_get JUndefined k =
     Inl (TypeError (''Cannot read properties of undefined (reading '' @ [CHR 0x27] @ k @ [CHR 0x27] @ '')''))"
| "js_get JNull k =
     Inl (TypeError (''Cannot read properties of null (reading '' @ [CHR 0x27] @ k @ [CHR 0x27] @ '')''))"
| "js_get (JArr xs) k =
     (if k = ''length'' then Inr (JNum (int (length xs)))
      else case index_of_key (length xs) k of
             Some i \<Rightarrow> Inr (xs ! i)
           | None \<Rightarrow> Inr JUndefined)"
| "js_get (JStr s) k =
     (if k = ''length'' then Inr (JNum (int (length s)))
      else case index_of_key (length s) k of
             Some i \<Rightarrow> Inr (JStr [s ! i])
           | None \<Rightarrow> Inr JUndefined)"
| "js_get (JObj kvs) k = (case map_of kvs k of Some v \<Rightarrow> Inr v | None \<Rightarrow> Inr JUndefined)"
| "js_get _ k = Inr JUndefined"

text \<open>The keys a \<^verbatim>\<open>for (const k in v)\<close> loop visits.\<close>

fun for_in_keys :: "jsval \<Rightarrow> string list" where
  "for_in_keys (JArr xs) = map show_nat [0..<length xs]"
| "for_in_keys (JStr s) = map show_nat [0..<length s]"
| "for_in_keys (JObj kvs) = map fst kvs"
| "for_in_keys _ = []"

fun join_commas :: "string list \<Rightarrow> string" where
  "join_commas [] = []"
| "join_commas [s] = s"
| "join_commas (s # t # r) = s @ '','' @ join_commas (t # r)"

text \<open>String conversion, used for property keys and in template strings.\<close>

fun js_key :: "jsval \<Rightarrow> string" where
  "js_key JUndefined = ''undefined''"
| "js_key JNull = ''null''"
| "js_key (JBool b) = (if b then ''true'' else ''false'')"
| "js_key (JNum n) = show_int n"
| "js_key JNaN = ''NaN''"
| "js_key (JStr s) = s"
| "js_key (JArr xs) =
     join_commas (map (\<lambda>x. if x = JUndefined \<or> x = JNull then [] else js_key x) xs)"
| "js_key (JObj kvs) = ''[object Object]''"


section \<open>The driver's surroundings\<close>

subsection \<open>Configuration (the constants read from the environment, lines 6 to 10)\<close>

text \<open>
  \<^verbatim>\<open>MAX_STEPS\<close> is \<^verbatim>\<open>parseInt(process.env.MAX_STEPS) || 2048\<close>: an integer, which
  may be negative.  The step counter is compared with it; both are integers, on which
  the numbers of the language are exact below \<open>2\<^sup>5\<^sup>3\<close>.
\<close>

record config =
  MAX_STEPS :: int
  NO_UNDO :: bool
  NO_RESIGN :: bool
  RND :: bool

subsection \<open>The rules engine (\<^verbatim>\<open>RULES\<close>, line 17)\<close>

text \<open>
  The game state and the view are the engine's objects.  The driver reads
  \<^verbatim>\<open>state.active\<close>, \<^verbatim>\<open>state.state\<close> and \<^verbatim>\<open>view.actions\<close>; the remaining
  properties are carried along.  \<^verbatim>\<open>view.actions\<close> is either missing (\<open>None\<close>, the
  falsy case of line 78) or an object from action names to descriptors.
\<close>

record game_state =
  active :: jsval
  state :: jsval
  game :: jsobj

record view =
  actions :: "jsobj option"
  prompt :: jsobj

text \<open>
  The engine's operations are functions of their arguments, and every call of
  \<^verbatim>\<open>RULES.view\<close> builds a fresh view object.  \<^verbatim>\<open>resign\<close> and \<^verbatim>\<open>fuzz_log\<close>
  may be missing from the module.

  \<^verbatim>\<open>action\<close> and \<^verbatim>\<open>resign\<close> are called inside the \<^verbatim>\<open>try\<close> of line 131 and
  receive the state object itself, which they may change in place.  When they return, the
  value returned becomes the state (\<open>Inr\<close>).  When they throw, the variable \<^verbatim>\<open>state\<close>
  still refers to the object they were given, so the result is the value thrown together
  with that object as the engine left it (\<open>Inl\<close>); an engine that throws before touching
  the state leaves the state it was given.

  \<^verbatim>\<open>setup\<close>, \<^verbatim>\<open>view\<close> and \<^verbatim>\<open>fuzz_log\<close> are called outside the \<^verbatim>\<open>try\<close> and are
  taken to return without changing the state.
\<close>

record rules =
  RULES_scenarios :: "jsval list"
  RULES_roles :: "jsval list"
  RULES_setup :: "jsval \<Rightarrow> jsval \<Rightarrow> jsobj \<Rightarrow> game_state"
  RULES_view :: "game_state \<Rightarrow> jsval \<Rightarrow> view"
  RULES_action :: "game_state \<Rightarrow> jsval \<Rightarrow> jsval \<Rightarrow> jsval \<Rightarrow> exn \<times> game_state + game_state"
  RULES_resign :: "(game_state \<Rightarrow> jsval \<Rightarrow> exn \<times> game_state + game_state) option"
  RULES_fuzz_log :: bool

subsection \<open>The byte provider and the random source\<close>

text \<open>
  \<^verbatim>\<open>FuzzedDataProvider\<close> comes from the package \<^verbatim>\<open>@jazzer.js/core\<close> and
  \<^verbatim>\<open>Math.random\<close> from the language; neither is code of the repository.  Both are
  parameters of the model: \<open>'d\<close> is the provider object, \<open>'r\<close> the state of the random
  generator, and \<open>random_floor r min max\<close> stands for the value of
  \<^verbatim>\<open>Math.floor(Math.random() * (max - min + 1) + min)\<close> (\<open>None\<close> is \<^verbatim>\<open>NaN\<close>)
  together with the generator afterwards.  The provider's operations may throw.
\<close>

type_synonym byte = "8 word"

record ('d, 'r) env =
  FuzzedDataProvider :: "byte list \<Rightarrow> 'd"
  remainingBytes :: "'d \<Rightarrow> nat"
  consumeIntegralInRange :: "'d \<Rightarrow> jsval \<Rightarrow> jsval \<Rightarrow> exn + int option \<times> 'd"
  pickValue :: "'d \<Rightarrow> jsval \<Rightarrow> exn + jsval \<times> 'd"
  random_floor :: "'r \<Rightarrow> jsval \<Rightarrow> jsval \<Rightarrow> int option \<times> 'r"

record ('d, 'r) world =
  data :: 'd
  rng :: 'r

definition num :: "int option \<Rightarrow> jsval" where
  "num x = (case x of None \<Rightarrow> JNaN | Some n \<Rightarrow> JNum n)"

definition minus_one :: "int option \<Rightarrow> jsval" where
  "minus_one x = (case x of None \<Rightarrow> JNaN | Some n \<Rightarrow> JNum (n - 1))"

section \<open>The driver\<close>

subsection \<open>What a run does and how it ends\<close>

text \<open>
  The trace of a run lists, in order, the calls into the rules engine, the lines written
  to the console and the files written.  \<^verbatim>\<open>JSON.stringify(state)\<close> is represented by
  the state itself and the summary line of \<^verbatim>\<open>log_crash\<close> by its parts.
\<close>

datatype event =
    CallSetup jsval jsval jsobj
  | CallView game_state jsval
  | CallFuzzLog game_state view "jsval list" jsval jsval jsval
  | CallAction game_state jsval jsval jsval
  | CallResign game_state jsval
  | LogBlank
  | LogView view
  | LogStep int jsval
  | LogStepAction int jsval jsval jsval
  | LogDumped
  | WriteFile string game_state

datatype jserror =
    MaxStepsExceededError string
  | NoMoreActionsError string
  | InvalidActionArgument string
  | RulesCrashError exn
  | Uncaught exn

datatype outcome = Returned jsval | Thrown jserror

text \<open>
  Once the loop has been entered, \<open>at_exit\<close> holds the game state with which the last
  round of the loop began and the step counter at the moment the function is left.  The
  variable \<^verbatim>\<open>state\<close> is not assigned in that round; the object it refers to differs
  from that state only after a failed call into the engine that changed it in place, and
  the trace then shows it in the file written by \<^verbatim>\<open>log_crash\<close>.
\<close>

record ('d, 'r) run =
  outcome :: outcome
  trace :: "event list"
  at_exit :: "(game_state \<times> int) option"
  final_world :: "('d, 'r) world"

subsection \<open>\<^verbatim>\<open>rnd\<close> (lines 28 to 33) and \<^verbatim>\<open>pick\<close> (lines 19 to 26)\<close>

definition rnd ::
  "('d, 'r) env \<Rightarrow> config \<Rightarrow> ('d, 'r) world \<Rightarrow> jsval \<Rightarrow> jsval \<Rightarrow> exn + int option \<times> ('d, 'r) world" where
  "rnd env cfg w mn mx =
     (if RND cfg then
        (case random_floor env (rng w) mn mx of (x, r') \<Rightarrow> Inr (x, w\<lparr>rng := r'\<rparr>))
      else
        (case consumeIntegralInRange env (data w) mn mx of
           Inl e \<Rightarrow> Inl e
         | Inr (x, d') \<Rightarrow> Inr (x, w\<lparr>data := d'\<rparr>)))"

definition pick ::
  "('d, 'r) env \<Rightarrow> config \<Rightarrow> ('d, 'r) world \<Rightarrow> jsval \<Rightarrow> exn + jsval \<times> ('d, 'r) world" where
  "pick env cfg w a =
     (if RND cfg then
        (case js_get a ''length'' of
           Inl e \<Rightarrow> Inl e
         | Inr len \<Rightarrow>
             (case rnd env cfg w (JNum 1) len of
                Inl e \<Rightarrow> Inl e
              | Inr (x, w') \<Rightarrow>
                  (case js_get a (js_key (minus_one x)) of
                     Inl e \<Rightarrow> Inl e
                   | Inr v \<Rightarrow> Inr (v, w'))))
      else
        (case pickValue env (data w) a of
           Inl e \<Rightarrow> Inl e
         | Inr (v, d') \<Rightarrow> Inr (v, w\<lparr>data := d'\<rparr>)))"

subsection \<open>\<^verbatim>\<open>log_crash\<close> (lines 146 to 158)\<close>

definition log_crash ::
  "jsobj \<Rightarrow> game_state \<Rightarrow> view \<Rightarrow> int \<Rightarrow> jsval \<Rightarrow> jsval \<Rightarrow> jsval \<Rightarrow> event list" where
  "log_crash game_setup st vw step act action args =
     [LogBlank,
      LogView vw,
      (if action \<noteq> JUndefined then LogStepAction step act action args else LogStep step act),
      LogDumped,
      WriteFile ''crash-state.json'' st]"

subsection \<open>Normalising the action set (lines 83 to 98)\<close>

text \<open>
  \<^verbatim>\<open>actions\<close> is the object \<^verbatim>\<open>view.actions\<close> itself (line 83 copies the reference),
  so the three functions below describe what happens to that object.
\<close>

definition remove_undo :: "config \<Rightarrow> jsobj \<Rightarrow> jsobj" where
  "remove_undo cfg acts =
     (if NO_UNDO cfg \<and> List.member (map fst acts) ''undo'' then AList.delete ''undo'' acts
      else acts)"

definition add_resign :: "config \<Rightarrow> rules \<Rightarrow> jsobj \<Rightarrow> jsobj" where
  "add_resign cfg rules acts =
     (if \<not> NO_RESIGN cfg \<and> RULES_resign rules \<noteq> None then AList.update ''_resign'' (JNum 1) acts
      else acts)"

text \<open>The test of line 95; \<^verbatim>\<open>value.length\<close> throws on \<^verbatim>\<open>undefined\<close> and \<^verbatim>\<open>null\<close>.\<close>

definition disabled :: "jsval \<Rightarrow> exn + bool" where
  "disabled v =
     (if v = JBool False \<or> v = JNum 0 then Inr True
      else case js_get v ''length'' of
             Inl e \<Rightarrow> Inl e
           | Inr l \<Rightarrow> Inr (l = JNum 0))"

text \<open>The loop of lines 94 to 98 over the entries taken at its start.\<close>

fun remove_disabled :: "(string \<times> jsval) list \<Rightarrow> jsobj \<Rightarrow> exn + jsobj" where
  "remove_disabled [] acts = Inr acts"
| "remove_disabled ((key, v) # entries) acts =
     (case disabled v of
        Inl e \<Rightarrow> Inl e
      | Inr d \<Rightarrow> remove_disabled entries (if d then AList.delete key acts else acts))"

definition normalize :: "config \<Rightarrow> rules \<Rightarrow> jsobj \<Rightarrow> exn + jsobj" where
  "normalize cfg rules acts0 =
     (let acts = add_resign cfg rules (remove_undo cfg acts0)
      in remove_disabled acts acts)"

definition object_keys :: "jsobj \<Rightarrow> jsval list" where
  "object_keys acts = map (\<lambda>kv. JStr (fst kv)) acts"


subsection \<open>One turn: from the actions of the view to the applied action (lines 78 to 140)\<close>

text \<open>A turn either ends the run or hands the next state to the loop.\<close>

datatype ('d, 'r) turn_result =
    Stop outcome "event list" "('d, 'r) world"
  | Next game_state "event list" "('d, 'r) world"

text \<open>The condition of line 108.\<close>

definition is_pool :: "jsval \<Rightarrow> bool" where
  "is_pool args =
     (case args of
        JUndefined \<Rightarrow> False
      | JNull \<Rightarrow> False
      | JNum n \<Rightarrow> False
      | JNaN \<Rightarrow> False
      | JBool b \<Rightarrow> False
      | _ \<Rightarrow> True)"

text \<open>The test of lines 110 to 115: \<^verbatim>\<open>isNaN\<close> of the keys that \<^verbatim>\<open>for ... in\<close> visits.\<close>

definition has_nan_key :: "jsval \<Rightarrow> bool" where
  "has_nan_key args = list_ex isNaN_str (for_in_keys args)"

text \<open>Lines 131 to 136: the call into the engine and what it returns or throws.\<close>

definition apply_rules ::
  "rules \<Rightarrow> game_state \<Rightarrow> jsval \<Rightarrow> jsval \<Rightarrow> jsval \<Rightarrow>
   event list \<times> (exn \<times> game_state + game_state)" where
  "apply_rules rules st act action arg =
     (if action \<noteq> JStr ''_resign'' then
        ([CallAction st act action arg], RULES_action rules st act action arg)
      else
        (case RULES_resign rules of
           None \<Rightarrow> ([], Inl (TypeError ''RULES.resign is not a function'', st))
         | Some resign \<Rightarrow> ([CallResign st act], resign st act)))"

text \<open>
  Line 139, \<^verbatim>\<open>new RulesCrashError(e, e.stack)\<close>: reading \<^verbatim>\<open>e.stack\<close> throws a
  TypeError when the value caught is \<^verbatim>\<open>null\<close> or \<^verbatim>\<open>undefined\<close>.
\<close>

definition rules_crash :: "exn \<Rightarrow> jserror" where
  "rules_crash e =
     (case e of
        Value v \<Rightarrow> (case js_get v ''stack'' of Inl t \<Rightarrow> Uncaught t | Inr s \<Rightarrow> RulesCrashError e)
      | _ \<Rightarrow> RulesCrashError e)"

text \<open>Lines 121 to 129: the optional trace hook of the engine.\<close>

definition fuzz_logged ::
  "rules \<Rightarrow> game_state \<Rightarrow> view \<Rightarrow> jsobj \<Rightarrow> jsval \<Rightarrow> jsval \<Rightarrow> jsval \<Rightarrow> event list" where
  "fuzz_logged rules st vw acts action args arg =
     (if RULES_fuzz_log rules then [CallFuzzLog st vw (object_keys acts) action args arg] else [])"

text \<open>
  Lines 121 to 140, with the view as normalisation left it.  In the \<^verbatim>\<open>catch\<close>,
  \<^verbatim>\<open>log_crash\<close> (line 138) serialises the state object as the failed call left it,
  before the error of line 139 is built.
\<close>

definition take_action ::
  "rules \<Rightarrow> jsobj \<Rightarrow> game_state \<Rightarrow> view \<Rightarrow> int \<Rightarrow> jsval \<Rightarrow> jsobj \<Rightarrow> jsval \<Rightarrow> jsval \<Rightarrow> jsval \<Rightarrow>
   ('d, 'r) world \<Rightarrow> ('d, 'r) turn_result" where
  "take_action rules game_setup st vw step act acts action args arg w =
     (let logged = fuzz_logged rules st vw acts action args arg
      in case apply_rules rules st act action arg of
           (called, Inl (e, st_left)) \<Rightarrow>
             Stop (Thrown (rules_crash e))
               (logged @ called @ log_crash game_setup st_left vw step act action arg) w
         | (called, Inr st') \<Rightarrow> Next st' (logged @ called) w)"

text \<open>Line 105: \<^verbatim>\<open>actions[action]\<close>.\<close>

definition descriptor_of :: "jsobj \<Rightarrow> jsval \<Rightarrow> jsval" where
  "descriptor_of acts action =
     (case map_of acts (js_key action) of Some v \<Rightarrow> v | None \<Rightarrow> JUndefined)"

text \<open>Lines 105 to 118, then the application.\<close>

definition choose_arg ::
  "('d, 'r) env \<Rightarrow> config \<Rightarrow> rules \<Rightarrow> jsobj \<Rightarrow> game_state \<Rightarrow> view \<Rightarrow> int \<Rightarrow> jsval \<Rightarrow> jsobj \<Rightarrow>
   jsval \<Rightarrow> ('d, 'r) world \<Rightarrow> ('d, 'r) turn_result" where
  "choose_arg env cfg rules game_setup st vw step act acts action w =
     (let args = descriptor_of acts action
      in if is_pool args then
           (if has_nan_key args then
              Stop (Thrown (InvalidActionArgument
                     (''Action '' @ [CHR 0x27] @ js_key action @ [CHR 0x27] @ '' argument has NaN value'')))
                (log_crash game_setup st vw step act JUndefined JUndefined) w
            else
              (case pick env cfg w args of
                 Inl e \<Rightarrow> Stop (Thrown (Uncaught e)) [] w
               | Inr (arg, w') \<Rightarrow>
                   take_action rules game_setup st vw step act acts action args arg w'))
         else take_action rules game_setup st vw step act acts action args JNull w)"

text \<open>
  Lines 78 to 104.  After line 98 the view holds the normalised actions, because
  \<^verbatim>\<open>actions\<close> and \<^verbatim>\<open>view.actions\<close> are one object.
\<close>

definition turn ::
  "('d, 'r) env \<Rightarrow> config \<Rightarrow> rules \<Rightarrow> jsobj \<Rightarrow> game_state \<Rightarrow> view \<Rightarrow> int \<Rightarrow> jsval \<Rightarrow>
   ('d, 'r) world \<Rightarrow> ('d, 'r) turn_result" where
  "turn env cfg rules game_setup st vw step act w =
     (case actions vw of
        None \<Rightarrow>
          Stop (Thrown (NoMoreActionsError ''No actions defined''))
            (log_crash game_setup st vw step act JUndefined JUndefined) w
      | Some acts0 \<Rightarrow>
          (case normalize cfg rules acts0 of
             Inl e \<Rightarrow> Stop (Thrown (Uncaught e)) [] w
           | Inr acts \<Rightarrow>
               (let vw' = vw\<lparr>actions := Some acts\<rparr>
                in if length (object_keys acts) = 0 then
                     Stop (Thrown (NoMoreActionsError ''No more actions to take (besides undo)''))
                       (log_crash game_setup st vw' step act JUndefined JUndefined) w
                   else
                     (case pick env cfg w (JArr (object_keys acts)) of
                        Inl e \<Rightarrow> Stop (Thrown (Uncaught e)) [] w
                      | Inr (action, w') \<Rightarrow>
                          choose_arg env cfg rules game_setup st vw' step act acts action w'))))"

subsection \<open>The loop (lines 55 to 142) and \<^verbatim>\<open>fuzz\<close> (lines 35 to 143)\<close>

definition prepend :: "event list \<Rightarrow> ('d, 'r) run \<Rightarrow> ('d, 'r) run" where
  "prepend evs r = r\<lparr>trace := evs @ trace r\<rparr>"

definition leave ::
  "outcome \<Rightarrow> event list \<Rightarrow> game_state \<Rightarrow> int \<Rightarrow> ('d, 'r) world \<Rightarrow> ('d, 'r) run" where
  "leave out evs st step w =
     \<lparr>outcome = out, trace = evs, at_exit = Some (st, step), final_world = w\<rparr>"

text \<open>Lines 61 to 65.\<close>

definition resolve_active ::
  "('d, 'r) env \<Rightarrow> config \<Rightarrow> rules \<Rightarrow> game_state \<Rightarrow> ('d, 'r) world \<Rightarrow> exn + jsval \<times> ('d, 'r) world" where
  "resolve_active env cfg rules st w =
     (if active st = JStr ''Both'' \<or> active st = JStr ''All''
      then pick env cfg w (JArr (RULES_roles rules))
      else Inr (active st, w))"

text \<open>The message of line 71.\<close>

definition bound_message :: "config \<Rightarrow> string" where
  "bound_message cfg = ''Maximum step count (MAX_STEPS='' @ show_int (MAX_STEPS cfg) @ '') exceeded''"

function fuzz_loop ::
  "('d, 'r) env \<Rightarrow> config \<Rightarrow> rules \<Rightarrow> jsobj \<Rightarrow> game_state \<Rightarrow> int \<Rightarrow> ('d, 'r) world \<Rightarrow> ('d, 'r) run" where
  "fuzz_loop env cfg rules game_setup st step w =
     (if \<not> RND cfg \<and> remainingBytes env (data w) < 16 then
        leave (Returned (JNum (- 1))) [] st step w
      else
        (case resolve_active env cfg rules st w of
           Inl e \<Rightarrow> leave (Thrown (Uncaught e)) [] st step w
         | Inr (act, w1) \<Rightarrow>
             (let vw = RULES_view rules st act
              in if step > MAX_STEPS cfg then
                   leave (Thrown (MaxStepsExceededError (bound_message cfg)))
                     (CallView st act # log_crash game_setup st vw step act JUndefined JUndefined)
                     st step w1
                 else if state st = JStr ''game_over'' then
                   leave (Returned JUndefined) [CallView st act] st step w1
                 else
                   (case turn env cfg rules game_setup st vw step act w1 of
                      Stop out evs w2 \<Rightarrow> leave out (CallView st act # evs) st step w2
                    | Next st' evs w2 \<Rightarrow>
                        prepend (CallView st act # evs)
                          (fuzz_loop env cfg rules game_setup st' (step + 1) w2)))))"
  by pat_completeness auto
termination
  by (relation "measure (\<lambda>(env, cfg, rules, game_setup, st, step, w). nat (MAX_STEPS cfg + 1 - step))")
     auto

declare fuzz_loop.simps [simp del]

definition fuzz ::
  "('d, 'r) env \<Rightarrow> config \<Rightarrow> rules \<Rightarrow> byte list \<Rightarrow> 'r \<Rightarrow> ('d, 'r) run" where
  "fuzz env cfg rules fuzzerInputData r0 =
     (let w = \<lparr>data = FuzzedDataProvider env fuzzerInputData, rng = r0\<rparr>
      in if \<not> RND cfg \<and> remainingBytes env (data w) < 16 then
           \<lparr>outcome = Returned (JNum (- 1)), trace = [], at_exit = None, final_world = w\<rparr>
         else
           (case rnd env cfg w (JNum 1) (JNum (2 ^ 35 - 31)) of
              Inl e \<Rightarrow> \<lparr>outcome = Thrown (Uncaught e), trace = [], at_exit = None, final_world = w\<rparr>
            | Inr (x, w1) \<Rightarrow>
                (case pick env cfg w1 (JArr (RULES_scenarios rules)) of
                   Inl e \<Rightarrow>
                     \<lparr>outcome = Thrown (Uncaught e), trace = [], at_exit = None, final_world = w1\<rparr>
                 | Inr (scenario, w2) \<Rightarrow>
                     (let seed = num x;
                          options = [];
                          game_setup =
                            [(''seed'', seed), (''scenario'', scenario), (''options'', JObj options)];
                          st = RULES_setup rules seed scenario options
                      in prepend [CallSetup seed scenario options]
                           (fuzz_loop env cfg rules game_setup st 0 w2)))))"

section \<open>Notions used to state the properties\<close>

subsection \<open>What two runs are compared on\<close>

text \<open>
  Two environments offer the same byte provider when they differ at most in the random
  source.  The observable part of a run is everything but the state of the random
  generator: how the run ended, its trace, the local state and step counter at exit, and
  the provider.
\<close>

definition same_provider :: "('d, 'r) env \<Rightarrow> ('d, 's) env \<Rightarrow> bool" where
  "same_provider env env' =
     (FuzzedDataProvider env = FuzzedDataProvider env' \<and>
      remainingBytes env = remainingBytes env' \<and>
      consumeIntegralInRange env = consumeIntegralInRange env' \<and>
      pickValue env = pickValue env')"

definition observable :: "('d, 'r) run \<Rightarrow> outcome \<times> event list \<times> (game_state \<times> int) option \<times> 'd" where
  "observable r = (outcome r, trace r, at_exit r, data (final_world r))"

definition observable_turn ::
  "('d, 'r) turn_result \<Rightarrow> (outcome \<times> event list \<times> 'd) + (game_state \<times> event list \<times> 'd)" where
  "observable_turn t =
     (case t of
        Stop out evs w \<Rightarrow> Inl (out, evs, data w)
      | Next st evs w \<Rightarrow> Inr (st, evs, data w))"

definition observable_draw :: "exn + 'a \<times> ('d, 'r) world \<Rightarrow> exn + 'a \<times> 'd" where
  "observable_draw x = (case x of Inl e \<Rightarrow> Inl e | Inr (v, w) \<Rightarrow> Inr (v, data w))"


subsection \<open>The events of a turn\<close>

definition events_of :: "('d, 'r) turn_result \<Rightarrow> event list" where
  "events_of t = (case t of Stop out evs w \<Rightarrow> evs | Next st evs w \<Rightarrow> evs)"

subsection \<open>Selectable descriptors and the contract of the choice operations\<close>

text \<open>
  A descriptor is selectable when it is none of \<^verbatim>\<open>false\<close>, \<^verbatim>\<open>0\<close> and the empty
  sequences.  The byte provider keeps its contract when a pick from a non-empty array
  returns one of its elements.
\<close>

definition selectable :: "jsval \<Rightarrow> bool" where
  "selectable v = (v \<noteq> JBool False \<and> v \<noteq> JNum 0 \<and> v \<noteq> JArr [] \<and> v \<noteq> JStr [])"


text \<open>
  An action is offered in a state to a role when the normalised action set of the view
  of that state for that role has it with a selectable descriptor.  An engine call is
  drawn from the normalised set when the action it applies is offered.
\<close>

definition offered :: "config \<Rightarrow> rules \<Rightarrow> game_state \<Rightarrow> jsval \<Rightarrow> jsval \<Rightarrow> bool" where
  "offered cfg rules st act action =
     (case actions (RULES_view rules st act) of
        None \<Rightarrow> False
      | Some acts0 \<Rightarrow>
          (case normalize cfg rules acts0 of
             Inl e \<Rightarrow> False
           | Inr acts \<Rightarrow> list_ex (\<lambda>kv. action = JStr (fst kv) \<and> selectable (snd kv)) acts))"

definition drawn_from_normalized :: "config \<Rightarrow> rules \<Rightarrow> event \<Rightarrow> bool" where
  "drawn_from_normalized cfg rules ev =
     (case ev of
        CallAction st act action arg \<Rightarrow> offered cfg rules st act action
      | CallResign st act \<Rightarrow> offered cfg rules st act (JStr ''_resign'')
      | _ \<Rightarrow> True)"

text \<open>An engine call applies \<^verbatim>\<open>undefined\<close> as the action.\<close>

definition applies_undefined :: "event \<Rightarrow> bool" where
  "applies_undefined ev =
     (case ev of
        CallAction st act action arg \<Rightarrow> action = JUndefined
      | _ \<Rightarrow> False)"


subsection \<open>Applied actions and the step counter\<close>

text \<open>
  A call into the engine is accepted when the engine returns a state from it; the state
  then replaces the game state (lines 133 and 135) and line 141 is reached.
  \<open>step_at_exit\<close> reads the step counter when the run ends (\<open>0\<close> when the loop was
  never entered).
\<close>

definition accepted :: "rules \<Rightarrow> event \<Rightarrow> bool" where
  "accepted rules ev =
     (case ev of
        CallAction st act action arg \<Rightarrow>
          (case RULES_action rules st act action arg of Inl e \<Rightarrow> False | Inr st' \<Rightarrow> True)
      | CallResign st act \<Rightarrow>
          (case RULES_resign rules of
             None \<Rightarrow> False
           | Some resign \<Rightarrow> (case resign st act of Inl e \<Rightarrow> False | Inr st' \<Rightarrow> True))
      | _ \<Rightarrow> False)"

definition applied_count :: "rules \<Rightarrow> event list \<Rightarrow> int" where
  "applied_count rules tr = int (length (filter (accepted rules) tr))"


text \<open>An error is the byte provider's own when one of its operations throws it.\<close>

definition provider_threw :: "('d, 'r) env \<Rightarrow> exn \<Rightarrow> bool" where
  "provider_threw env e =
     (\<exists>d a b. pickValue env d a = Inl e \<or> consumeIntegralInRange env d a b = Inl e)"


subsection \<open>Errors raised by the engine\<close>

text \<open>
  What the engine throws in answer to a call, if it throws, together with the state
  object as the failed call left it.
\<close>

definition raised :: "rules \<Rightarrow> event \<Rightarrow> (exn \<times> game_state) option" where
  "raised rules ev =
     (case ev of
        CallAction st act action arg \<Rightarrow>
          (case RULES_action rules st act action arg of Inl e \<Rightarrow> Some e | Inr st' \<Rightarrow> None)
      | CallResign st act \<Rightarrow>
          (case RULES_resign rules of
             None \<Rightarrow> None
           | Some resign \<Rightarrow> (case resign st act of Inl e \<Rightarrow> Some e | Inr st' \<Rightarrow> None))
      | _ \<Rightarrow> None)"

text \<open>
  A list of events reports the crash of a call when it ends with that call, made on the
  state \<open>st\<close>, followed by the dump of \<^verbatim>\<open>log_crash\<close> for the state \<open>st_left\<close>, that
  step and the action and argument of the call.
\<close>

definition crash_report ::
  "jsobj \<Rightarrow> game_state \<Rightarrow> game_state \<Rightarrow> int \<Rightarrow> event \<Rightarrow> event list \<Rightarrow> bool" where
  "crash_report gs st st_left step ev evs =
     (\<exists>pre vw act action arg.
        (ev = CallAction st act action arg \<or> ev = CallResign st act \<and> action = JStr ''_resign'') \<and>
        evs = pre @ ev # log_crash gs st_left vw step act action arg)"

text \<open>A run ends with a dump when its trace ends with the events of \<^verbatim>\<open>log_crash\<close>
  for the step at exit.\<close>

definition ends_with_dump :: "('d, 'r) run \<Rightarrow> bool" where
  "ends_with_dump r =
     (\<exists>pre gs st st' n vw act action args.
        at_exit r = Some (st, n) \<and> trace r = pre @ log_crash gs st' vw n act action args)"

text \<open>
  A byte provider that never throws, a rules engine none of whose views has a
  descriptor \<^verbatim>\<open>null\<close> or \<^verbatim>\<open>undefined\<close>, and a rules engine that throws neither
  \<^verbatim>\<open>null\<close> nor \<^verbatim>\<open>undefined\<close>.
\<close>

definition never_throws :: "('d, 'r) env \<Rightarrow> bool" where
  "never_throws env =
     (\<forall>d a b e. pickValue env d a \<noteq> Inl e \<and> consumeIntegralInRange env d a b \<noteq> Inl e)"

definition no_null_descriptor :: "rules \<Rightarrow> bool" where
  "no_null_descriptor rules =
     (\<forall>st act acts0 k v. actions (RULES_view rules st act) = Some acts0 \<longrightarrow> (k, v) \<in> set acts0 \<longrightarrow>
        v \<noteq> JNull \<and> v \<noteq> JUndefined)"

definition throws_no_null :: "rules \<Rightarrow> bool" where
  "throws_no_null rules =
     (\<forall>ev st. raised rules ev \<noteq> Some (Value JNull, st) \<and> raised rules ev \<noteq> Some (Value JUndefined, st))"

subsection \<open>The view that a dump shows\<close>

text \<open>
  The view of the engine after the driver's normalisation of its actions, when there
  are actions and normalisation does not throw; and the failures whose dump is written
  before normalisation (lines 70 and 79).
\<close>

definition normalized_view :: "config \<Rightarrow> rules \<Rightarrow> view \<Rightarrow> view option" where
  "normalized_view cfg rules vw =
     (case actions vw of
        None \<Rightarrow> None
      | Some acts0 \<Rightarrow>
          (case normalize cfg rules acts0 of
             Inl e \<Rightarrow> None
           | Inr acts \<Rightarrow> Some (vw\<lparr>actions := Some acts\<rparr>)))"

definition dumped_before_normalisation :: "outcome \<Rightarrow> bool" where
  "dumped_before_normalisation out =
     (case out of
        Thrown (MaxStepsExceededError m) \<Rightarrow> True
      | Thrown (NoMoreActionsError m) \<Rightarrow> m = ''No actions defined''
      | _ \<Rightarrow> False)"

section \<open>A small environment and rules engines for running the model\<close>

text \<open>
  The provider below stands in for the package's provider when the model is run on
  concrete inputs.  It takes one byte from the front of the buffer for each draw whose
  range has more than one value and picks from arrays only; it reproduces neither the
  number of bytes nor the end of the buffer from which the package draws.
\<close>

definition demo_consume :: "byte list \<Rightarrow> jsval \<Rightarrow> jsval \<Rightarrow> exn + int option \<times> byte list" where
  "demo_consume d mn mx =
     (case (mn, mx) of
        (JNum a, JNum b) \<Rightarrow>
          (if b < a then Inl (Error ''min must be less than or equal to max'')
           else case d of
                  [] \<Rightarrow> Inr (Some a, [])
                | x # r \<Rightarrow> if a = b then Inr (Some a, d) else Inr (Some (a + uint x mod (b - a + 1)), r))
      | _ \<Rightarrow> Inl (Error ''range is not numeric''))"

definition demo_pickValue :: "byte list \<Rightarrow> jsval \<Rightarrow> exn + jsval \<times> byte list" where
  "demo_pickValue d a =
     (case a of
        JArr xs \<Rightarrow>
          (if xs = [] then Inl (Error ''provided array is empty'')
           else case demo_consume d (JNum 0) (JNum (int (length xs) - 1)) of
                  Inr (Some i, d') \<Rightarrow> Inr (xs ! nat i, d')
                | Inr (None, d') \<Rightarrow> Inr (JUndefined, d')
                | Inl e \<Rightarrow> Inl e)
      | _ \<Rightarrow> Inl (Error ''not an array''))"

definition demo_random :: "nat \<Rightarrow> jsval \<Rightarrow> jsval \<Rightarrow> int option \<times> nat" where
  "demo_random r mn mx =
     (case (mn, mx) of
        (JNum a, JNum b) \<Rightarrow> (Some (a + int r mod (b - a + 1)), Suc r)
      | _ \<Rightarrow> (None, Suc r))"

definition demo_env :: "(byte list, nat) env" where
  "demo_env =
     \<lparr>FuzzedDataProvider = (\<lambda>b. b), remainingBytes = length,
      consumeIntegralInRange = demo_consume, pickValue = demo_pickValue,
      random_floor = demo_random\<rparr>"

definition demo_env2 :: "(byte list, nat) env" where
  "demo_env2 = demo_env\<lparr>random_floor := (\<lambda>r mn mx. (Some 1, r))\<rparr>"




definition demo_cfg :: config where
  "demo_cfg = \<lparr>MAX_STEPS = 2048, NO_UNDO = False, NO_RESIGN = True, RND = False\<rparr>"

text \<open>
  A counting game: the state counts the applied actions, either role may act, and the
  game is over after three actions.  The view offers a move with two arguments, a pass
  and a disabled undo.
\<close>

definition count_of :: "game_state \<Rightarrow> int" where
  "count_of st = (case map_of (game st) ''n'' of Some (JNum n) \<Rightarrow> n | _ \<Rightarrow> 0)"

definition demo_state :: "int \<Rightarrow> game_state" where
  "demo_state n =
     \<lparr>active = JStr ''Both'',
      state = JStr (if 3 \<le> n then ''game_over'' else ''play''),
      game = [(''n'', JNum n)]\<rparr>"

definition demo_view :: "jsobj \<Rightarrow> view" where
  "demo_view acts = \<lparr>actions = Some acts, prompt = []\<rparr>"

definition demo_rules :: rules where
  "demo_rules =
     \<lparr>RULES_scenarios = [JStr ''Standard''],
      RULES_roles = [JStr ''Red'', JStr ''Blue''],
      RULES_setup = (\<lambda>seed scenario options. demo_state 0),
      RULES_view = (\<lambda>st role.
         demo_view [(''move'', JArr [JNum 1, JNum 2]), (''pass'', JNum 1), (''undo'', JNum 0)]),
      RULES_action = (\<lambda>st role action arg. Inr (demo_state (count_of st + 1))),
      RULES_resign = None,
      RULES_fuzz_log = False\<rparr>"

text \<open>Variants of the counting game.\<close>

definition resign_cfg :: config where
  "resign_cfg = demo_cfg\<lparr>NO_RESIGN := False\<rparr>"

definition resign_rules :: rules where
  "resign_rules =
     demo_rules\<lparr>RULES_view := (\<lambda>st role. demo_view [(''pass'', JNum 0)]),
                RULES_resign := Some (\<lambda>st role. Inr (demo_state 3))\<rparr>"

definition stuck_rules :: rules where
  "stuck_rules = demo_rules\<lparr>RULES_view := (\<lambda>st role. demo_view [(''pass'', JNum 0)])\<rparr>"


definition over_rules :: rules where
  "over_rules = demo_rules\<lparr>RULES_setup := (\<lambda>seed scenario options. demo_state 3)\<rparr>"

definition no_roles_rules :: rules where
  "no_roles_rules = over_rules\<lparr>RULES_roles := []\<rparr>"

text \<open>
  Three engines that fail on the third action: the first throws without touching the
  state, the second has counted the action in the state object before it throws, the
  third throws \<^verbatim>\<open>null\<close>.
\<close>

definition crash_rules :: rules where
  "crash_rules =
     demo_rules\<lparr>RULES_action := (\<lambda>st role action arg.
        if count_of st = 2 then Inl (Error ''illegal move'', st)
        else Inr (demo_state (count_of st + 1)))\<rparr>"

definition mutating_rules :: rules where
  "mutating_rules =
     demo_rules\<lparr>RULES_action := (\<lambda>st role action arg.
        if count_of st = 2 then Inl (Error ''illegal move'', st\<lparr>game := [(''n'', JNum 3)]\<rparr>)
        else Inr (demo_state (count_of st + 1)))\<rparr>"

definition null_throw_rules :: rules where
  "null_throw_rules =
     demo_rules\<lparr>RULES_action := (\<lambda>st role action arg.
        if count_of st = 2 then Inl (Value JNull, st)
        else Inr (demo_state (count_of st + 1)))\<rparr>"

definition null_rules :: rules where
  "null_rules = demo_rules\<lparr>RULES_view := (\<lambda>st role. demo_view [(''pass'', JNull)])\<rparr>"

definition nan_rules :: rules where
  "nan_rules = demo_rules\<lparr>RULES_view := (\<lambda>st role. demo_view [(''move'', JArr [JNaN])])\<rparr>"

section \<open>Facts about the language helpers\<close>

lemma digit_inj: "a < 10 \<Longrightarrow> b < 10 \<Longrightarrow> ''0123456789'' ! a = ''0123456789'' ! b \<Longrightarrow> a = b"
  by (simp add: nth_eq_iff_index_eq)

lemma digit_member: "a < 10 \<Longrightarrow> List.member ''0123456789'' (''0123456789'' ! a)"
  by (simp add: nth_mem del: set_simps) 

lemma show_nat_digits: "list_all (List.member ''0123456789'') (show_nat n)"
proof (induction n rule: show_nat.induct)
  case (1 n)
  show ?case
  proof (cases "n < 10")
    case True
    then show ?thesis using digit_member [of n] by (simp add: show_nat.simps [of n])
  next
    case False
    then show ?thesis using 1 digit_member [of "n mod 10"]
      by (simp add: show_nat.simps [of n])
  qed
qed

lemma show_nat_nonempty: "show_nat n \<noteq> []"
  by (simp add: show_nat.simps [of n])

lemma show_nat_length: "\<not> n < 10 \<Longrightarrow> 2 \<le> length (show_nat n)"
  using show_nat_nonempty [of "n div 10"]
  by (cases "show_nat (n div 10)") (simp_all add: show_nat.simps [of n])

lemma show_nat_inj: "show_nat n = show_nat m \<Longrightarrow> n = m"
proof (induction n arbitrary: m rule: show_nat.induct)
  case (1 n)
  show ?case
  proof (cases "n < 10")
    case n: True
    show ?thesis
    proof (cases "m < 10")
      case True
      with n 1(2) show ?thesis
        using digit_inj [of n m] by (simp add: show_nat.simps [of n] show_nat.simps [of m])
    next
      case False
      from 1(2) n have "length (show_nat m) = 1"
        by (simp add: show_nat.simps [of n] flip: 1(2))
      with show_nat_length [OF False] show ?thesis by simp
    qed
  next
    case n: False
    show ?thesis
    proof (cases "m < 10")
      case True
      from 1(2) True have "length (show_nat n) = 1"
        by (simp add: show_nat.simps [of m])
      with show_nat_length [OF n] show ?thesis by simp
    next
      case False
      with n 1(2) have a: "show_nat (n div 10) = show_nat (m div 10)"
        and b: "''0123456789'' ! (n mod 10) = ''0123456789'' ! (m mod 10)"
        by (simp_all add: show_nat.simps [of n] show_nat.simps [of m])
      from 1(1) [OF n a] have "n div 10 = m div 10" .
      moreover from b have "n mod 10 = m mod 10"
        using digit_inj [of "n mod 10" "m mod 10"] by simp
      ultimately show ?thesis by (metis div_mult_mod_eq)
    qed
  qed
qed

lemma index_of_key_show_nat: "i < n \<Longrightarrow> index_of_key n (show_nat i) = Some i"
proof -
  assume "i < n"
  have "find (\<lambda>j. show_nat j = show_nat i) [0..<n] = Some i"
    unfolding find_Some_iff
    using \<open>i < n\<close> by (auto dest: show_nat_inj intro!: exI [of _ i])
  then show ?thesis by (simp add: index_of_key_def)
qed

lemma show_nat_not_length: "show_nat i \<noteq> ''length''"
proof
  assume "show_nat i = ''length''"
  with show_nat_digits [of i] show False by simp
qed

lemma js_get_index: "i < length xs \<Longrightarrow> js_get (JArr xs) (show_nat i) = Inr (xs ! i)"
  by (simp add: show_nat_not_length index_of_key_show_nat)

lemma digit_not_ws: "List.member ''0123456789'' c \<Longrightarrow> \<not> is_ws c"
  by (auto simp: is_ws_def)

lemma digit_not_sign: "List.member ''0123456789'' c \<Longrightarrow> c \<noteq> CHR ''+'' \<and> c \<noteq> CHR ''-''"
  by auto

lemma dropWhile_ws_digits:
  assumes "list_all (List.member ''0123456789'') s"
  shows "dropWhile is_ws s = s"
proof (cases s)
  case Nil
  then show ?thesis by simp
next
  case (Cons c r)
  with assms have "List.member ''0123456789'' c" by simp
  from digit_not_ws [OF this] Cons show ?thesis by simp
qed

lemma trim_digits:
  assumes "list_all (List.member ''0123456789'') s"
  shows "trim s = s"
proof -
  from assms have "list_all (List.member ''0123456789'') (rev s)"
    by (simp add: list_all_iff)
  from dropWhile_ws_digits [OF this] dropWhile_ws_digits [OF assms]
  show ?thesis by (simp add: trim_def)
qed

lemma strip_sign_digits:
  assumes "list_all (List.member ''0123456789'') s"
  shows "strip_sign s = s"
proof (cases s)
  case Nil
  then show ?thesis by (simp add: strip_sign_def)
next
  case (Cons c r)
  with assms have "List.member ''0123456789'' c" by simp
  from digit_not_sign [OF this] Cons show ?thesis by (simp add: strip_sign_def)
qed

lemma decimal_ok_digits:
  assumes "list_all (List.member ''0123456789'') s" and "s \<noteq> []"
  shows "decimal_ok s"
proof -
  from assms(1) have tw: "takeWhile (List.member ''0123456789'') s = s"
    and dw: "dropWhile (List.member ''0123456789'') s = []"
    by (simp_all add: list_all_iff)
  show ?thesis unfolding decimal_ok_def tw dw using assms(2) by simp
qed

lemma isNaN_show_nat: "\<not> isNaN_str (show_nat i)"
  using show_nat_digits [of i] show_nat_nonempty [of i]
  by (simp add: isNaN_str_def trim_digits strip_sign_digits decimal_ok_digits)

lemma array_has_no_nan_key: "\<not> has_nan_key (JArr xs)"
  by (simp add: has_nan_key_def list_ex_iff isNaN_show_nat)


section \<open>Facts about normalisation and picking\<close>










section \<open>The paths through one turn\<close>

text \<open>
  Two case rules list the ways in which the application of an action and a whole turn
  can go; the properties of runs below are proved path by path.
\<close>

lemma rules_crash_simps [simp]:
  "rules_crash e \<noteq> MaxStepsExceededError m"
  "rules_crash e \<noteq> NoMoreActionsError m"
  "rules_crash e \<noteq> InvalidActionArgument m"
  "\<not> dumped_before_normalisation (Thrown (rules_crash e))"
  by (auto simp: rules_crash_def dumped_before_normalisation_def split: exn.splits sum.splits)

lemma rules_crash_wraps:
  assumes "e \<noteq> Value JNull" and "e \<noteq> Value JUndefined"
  shows "rules_crash e = RulesCrashError e"
proof (cases e)
  case (Value v)
  with assms have "v \<noteq> JNull" and "v \<noteq> JUndefined" by auto
  then have "\<exists>s. js_get v ''stack'' = Inr s"
    by (cases v) (auto split: option.splits)
  with Value show ?thesis by (auto simp: rules_crash_def)
qed (simp_all add: rules_crash_def)

lemma rules_crash_null:
  assumes "e = Value JNull \<or> e = Value JUndefined"
  shows "\<exists>m. rules_crash e = Uncaught (TypeError m)"
  using assms by (auto simp: rules_crash_def)

lemma take_action_cases:
  fixes w :: "('d, 'r) world"
  obtains
    (resign_missing)
      "action = JStr ''_resign''" "RULES_resign rules = None"
      "take_action rules gs st vw step act acts action args arg w =
         Stop (Thrown (RulesCrashError (TypeError ''RULES.resign is not a function'')))
              (fuzz_logged rules st vw acts action args arg @
               log_crash gs st vw step act action arg) w"
  | (action_throws) e st_left where
      "action \<noteq> JStr ''_resign''" "RULES_action rules st act action arg = Inl (e, st_left)"
      "take_action rules gs st vw step act acts action args arg w =
         Stop (Thrown (rules_crash e))
              (fuzz_logged rules st vw acts action args arg @
               CallAction st act action arg # log_crash gs st_left vw step act action arg) w"
  | (action_returns) st' where
      "action \<noteq> JStr ''_resign''" "RULES_action rules st act action arg = Inr st'"
      "take_action rules gs st vw step act acts action args arg w =
         Next st' (fuzz_logged rules st vw acts action args arg @ [CallAction st act action arg]) w"
  | (resign_throws) resign e st_left where
      "action = JStr ''_resign''" "RULES_resign rules = Some resign" "resign st act = Inl (e, st_left)"
      "take_action rules gs st vw step act acts action args arg w =
         Stop (Thrown (rules_crash e))
              (fuzz_logged rules st vw acts action args arg @
               CallResign st act # log_crash gs st_left vw step act action arg) w"
  | (resign_returns) resign st' where
      "action = JStr ''_resign''" "RULES_resign rules = Some resign" "resign st act = Inr st'"
      "take_action rules gs st vw step act acts action args arg w =
         Next st' (fuzz_logged rules st vw acts action args arg @ [CallResign st act]) w"
proof (cases "action = JStr ''_resign''")
  case False
  show ?thesis
  proof (cases "RULES_action rules st act action arg")
    case (Inl p)
    obtain e st_left where "p = (e, st_left)" by (cases p)
    with Inl False show ?thesis
      by (intro action_throws [of e st_left])
         (simp_all add: take_action_def apply_rules_def fuzz_logged_def)
  next
    case (Inr st')
    with False show ?thesis
      by (intro action_returns [of st']) (simp_all add: take_action_def apply_rules_def fuzz_logged_def)
  qed
next
  case True
  show ?thesis
  proof (cases "RULES_resign rules")
    case None
    with True show ?thesis
      by (intro resign_missing)
         (simp_all add: take_action_def apply_rules_def fuzz_logged_def rules_crash_def)
  next
    case (Some resign)
    show ?thesis
    proof (cases "resign st act")
      case (Inl p)
      obtain e st_left where "p = (e, st_left)" by (cases p)
      with Inl True Some show ?thesis
        by (intro resign_throws [of resign e st_left])
           (simp_all add: take_action_def apply_rules_def fuzz_logged_def)
    next
      case (Inr st')
      with True Some show ?thesis
        by (intro resign_returns [of resign st']) (simp_all add: take_action_def apply_rules_def fuzz_logged_def)
    qed
  qed
qed

lemma turn_cases:
  fixes w :: "('d, 'r) world"
  obtains
    (no_actions)
      "actions vw = None"
      "turn env cfg rules gs st vw step act w =
         Stop (Thrown (NoMoreActionsError ''No actions defined''))
              (log_crash gs st vw step act JUndefined JUndefined) w"
  | (normalize_throws) acts0 e where
      "actions vw = Some acts0" "normalize cfg rules acts0 = Inl e"
      "turn env cfg rules gs st vw step act w = Stop (Thrown (Uncaught e)) [] w"
  | (nothing_left) acts0 where
      "actions vw = Some acts0" "normalize cfg rules acts0 = Inr []"
      "turn env cfg rules gs st vw step act w =
         Stop (Thrown (NoMoreActionsError ''No more actions to take (besides undo)''))
              (log_crash gs st (vw\<lparr>actions := Some []\<rparr>) step act JUndefined JUndefined) w"
  | (pick_throws) acts0 acts e where
      "actions vw = Some acts0" "normalize cfg rules acts0 = Inr acts" "acts \<noteq> []"
      "pick env cfg w (JArr (object_keys acts)) = Inl e"
      "turn env cfg rules gs st vw step act w = Stop (Thrown (Uncaught e)) [] w"
  | (nan_pool) acts0 acts action w1 where
      "actions vw = Some acts0" "normalize cfg rules acts0 = Inr acts" "acts \<noteq> []"
      "pick env cfg w (JArr (object_keys acts)) = Inr (action, w1)"
      "is_pool (descriptor_of acts action)" "has_nan_key (descriptor_of acts action)"
      "turn env cfg rules gs st vw step act w =
         Stop (Thrown (InvalidActionArgument
                (''Action '' @ [CHR 0x27] @ js_key action @ [CHR 0x27] @ '' argument has NaN value'')))
              (log_crash gs st (vw\<lparr>actions := Some acts\<rparr>) step act JUndefined JUndefined) w1"
  | (arg_throws) acts0 acts action w1 e where
      "actions vw = Some acts0" "normalize cfg rules acts0 = Inr acts" "acts \<noteq> []"
      "pick env cfg w (JArr (object_keys acts)) = Inr (action, w1)"
      "is_pool (descriptor_of acts action)" "\<not> has_nan_key (descriptor_of acts action)"
      "pick env cfg w1 (descriptor_of acts action) = Inl e"
      "turn env cfg rules gs st vw step act w = Stop (Thrown (Uncaught e)) [] w1"
  | (with_arg) acts0 acts action w1 arg w2 where
      "actions vw = Some acts0" "normalize cfg rules acts0 = Inr acts" "acts \<noteq> []"
      "pick env cfg w (JArr (object_keys acts)) = Inr (action, w1)"
      "is_pool (descriptor_of acts action)" "\<not> has_nan_key (descriptor_of acts action)"
      "pick env cfg w1 (descriptor_of acts action) = Inr (arg, w2)"
      "turn env cfg rules gs st vw step act w =
         take_action rules gs st (vw\<lparr>actions := Some acts\<rparr>) step act acts action
           (descriptor_of acts action) arg w2"
  | (without_arg) acts0 acts action w1 where
      "actions vw = Some acts0" "normalize cfg rules acts0 = Inr acts" "acts \<noteq> []"
      "pick env cfg w (JArr (object_keys acts)) = Inr (action, w1)"
      "\<not> is_pool (descriptor_of acts action)"
      "turn env cfg rules gs st vw step act w =
         take_action rules gs st (vw\<lparr>actions := Some acts\<rparr>) step act acts action
           (descriptor_of acts action) JNull w1"
proof (cases "actions vw")
  case None
  then show ?thesis by (intro no_actions) (simp_all add: turn_def)
next
  case (Some acts0)
  show ?thesis
  proof (cases "normalize cfg rules acts0")
    case (Inl e)
    with Some show ?thesis by (intro normalize_throws [of acts0 e]) (simp_all add: turn_def)
  next
    case (Inr acts)
    show ?thesis
    proof (cases "acts = []")
      case True
      with Some Inr show ?thesis
        by (intro nothing_left [of acts0]) (simp_all add: turn_def object_keys_def)
    next
      case ne: False
      show ?thesis
      proof (cases "pick env cfg w (JArr (object_keys acts))")
        case (Inl e)
        with Some Inr ne show ?thesis
          by (intro pick_throws [of acts0 acts e]) (simp_all add: turn_def object_keys_def)
      next
        case p: (Inr x)
        obtain action w1 where x: "x = (action, w1)" by (cases x)
        have t: "turn env cfg rules gs st vw step act w =
                 choose_arg env cfg rules gs st (vw\<lparr>actions := Some acts\<rparr>) step act acts action w1"
          using Some Inr ne p x by (simp add: turn_def object_keys_def)
        show ?thesis
        proof (cases "is_pool (descriptor_of acts action)")
          case False
          with Some Inr ne p x t show ?thesis
            by (intro without_arg [of acts0 acts action w1])
               (simp_all add: choose_arg_def descriptor_of_def)
        next
          case pool: True
          show ?thesis
          proof (cases "has_nan_key (descriptor_of acts action)")
            case True
            with Some Inr ne p x t pool show ?thesis
              by (intro nan_pool [of acts0 acts action w1])
                 (simp_all add: choose_arg_def descriptor_of_def)
          next
            case nonan: False
            show ?thesis
            proof (cases "pick env cfg w1 (descriptor_of acts action)")
              case (Inl e)
              with Some Inr ne p x t pool nonan show ?thesis
                by (intro arg_throws [of acts0 acts action w1 e])
                   (simp_all add: choose_arg_def descriptor_of_def)
            next
              case q: (Inr y)
              obtain arg w2 where y: "y = (arg, w2)" by (cases y)
              with Some Inr ne p x t pool nonan q show ?thesis
                by (intro with_arg [of acts0 acts action w1 arg w2])
                   (simp_all add: choose_arg_def descriptor_of_def)
            qed
          qed
        qed
      qed
    qed
  qed
qed


section \<open>The paths through one round of the loop\<close>

lemma fuzz_loop_cases:
  fixes w :: "('d, 'r) world"
  obtains
    (short)
      "\<not> RND cfg" "remainingBytes env (data w) < 16"
      "fuzz_loop env cfg rules gs st step w = leave (Returned (JNum (- 1))) [] st step w"
  | (role_throws) e where
      "RND cfg \<or> 16 \<le> remainingBytes env (data w)"
      "resolve_active env cfg rules st w = Inl e"
      "fuzz_loop env cfg rules gs st step w = leave (Thrown (Uncaught e)) [] st step w"
  | (bound) act w1 where
      "RND cfg \<or> 16 \<le> remainingBytes env (data w)"
      "resolve_active env cfg rules st w = Inr (act, w1)"
      "MAX_STEPS cfg < step"
      "fuzz_loop env cfg rules gs st step w =
         leave (Thrown (MaxStepsExceededError (bound_message cfg)))
           (CallView st act #
            log_crash gs st (RULES_view rules st act) step act JUndefined JUndefined)
           st step w1"
  | (game_over) act w1 where
      "RND cfg \<or> 16 \<le> remainingBytes env (data w)"
      "resolve_active env cfg rules st w = Inr (act, w1)"
      "step \<le> MAX_STEPS cfg" "state st = JStr ''game_over''"
      "fuzz_loop env cfg rules gs st step w = leave (Returned JUndefined) [CallView st act] st step w1"
  | (stopped) act w1 out evs w2 where
      "RND cfg \<or> 16 \<le> remainingBytes env (data w)"
      "resolve_active env cfg rules st w = Inr (act, w1)"
      "step \<le> MAX_STEPS cfg" "state st \<noteq> JStr ''game_over''"
      "turn env cfg rules gs st (RULES_view rules st act) step act w1 = Stop out evs w2"
      "fuzz_loop env cfg rules gs st step w = leave out (CallView st act # evs) st step w2"
  | (continued) act w1 st' evs w2 where
      "RND cfg \<or> 16 \<le> remainingBytes env (data w)"
      "resolve_active env cfg rules st w = Inr (act, w1)"
      "step \<le> MAX_STEPS cfg" "state st \<noteq> JStr ''game_over''"
      "turn env cfg rules gs st (RULES_view rules st act) step act w1 = Next st' evs w2"
      "fuzz_loop env cfg rules gs st step w =
         prepend (CallView st act # evs) (fuzz_loop env cfg rules gs st' (step + 1) w2)"
proof (cases "\<not> RND cfg \<and> remainingBytes env (data w) < 16")
  case True
  then show ?thesis
    by (intro short) (auto simp add: fuzz_loop.simps [of env cfg rules gs st step w])
next
  case enough: False
  then have enough': "RND cfg \<or> 16 \<le> remainingBytes env (data w)" by auto
  show ?thesis
  proof (cases "resolve_active env cfg rules st w")
    case (Inl e)
    with enough show ?thesis
      by (intro role_throws [of e] enough')
         (auto simp add: fuzz_loop.simps [of env cfg rules gs st step w])
  next
    case (Inr x)
    obtain act w1 where x: "x = (act, w1)" by (cases x)
    show ?thesis
    proof (cases "MAX_STEPS cfg < step")
      case True
      with enough Inr x show ?thesis
        by (intro bound [of act w1] enough')
           (auto simp add: fuzz_loop.simps [of env cfg rules gs st step w] bound_message_def)
    next
      case low: False
      show ?thesis
      proof (cases "state st = JStr ''game_over''")
        case True
        with enough Inr x low show ?thesis
          by (intro game_over [of act w1] enough')
             (auto simp add: fuzz_loop.simps [of env cfg rules gs st step w])
      next
        case running: False
        show ?thesis
        proof (cases "turn env cfg rules gs st (RULES_view rules st act) step act w1")
          case (Stop out evs w2)
          with enough Inr x low running show ?thesis
            by (intro stopped [of act w1 out evs w2] enough')
               (auto simp add: fuzz_loop.simps [of env cfg rules gs st step w])
        next
          case (Next st' evs w2)
          with enough Inr x low running show ?thesis
            by (intro continued [of act w1 st' evs w2] enough')
               (auto simp add: fuzz_loop.simps [of env cfg rules gs st step w])
        qed
      qed
    qed
  qed
qed

lemma fuzz_loop_induct [case_names turn]:
  fixes w :: "('d, 'r) world"
  assumes step:
    "\<And>st step w.
       (\<And>act w1 st' evs w2.
          RND cfg \<or> 16 \<le> remainingBytes env (data w) \<Longrightarrow>
          resolve_active env cfg rules st w = Inr (act, w1) \<Longrightarrow>
          step \<le> MAX_STEPS cfg \<Longrightarrow>
          state st \<noteq> JStr ''game_over'' \<Longrightarrow>
          turn env cfg rules gs st (RULES_view rules st act) step act w1 = Next st' evs w2 \<Longrightarrow>
          P st' (step + 1) w2) \<Longrightarrow>
       P st step w"
  shows "P st step w"
  using step
proof (induction env cfg rules gs st step w rule: fuzz_loop.induct)
  case (1 env cfg rules gs st step w)
  show ?case
  proof (rule "1.prems")
    fix act w1 st' evs w2
    assume e: "RND cfg \<or> 16 \<le> remainingBytes env (data w)"
      and r: "resolve_active env cfg rules st w = Inr (act, w1)"
      and b: "step \<le> MAX_STEPS cfg"
      and g: "state st \<noteq> JStr ''game_over''"
      and t: "turn env cfg rules gs st (RULES_view rules st act) step act w1 = Next st' evs w2"
    from e have e': "\<not> (\<not> RND cfg \<and> remainingBytes env (data w) < 16)" by auto
    from b have b': "\<not> MAX_STEPS cfg < step" by simp
    show "P st' (step + 1) w2"
      by (rule "1.IH" [OF e' r refl refl b' g t]) (rule "1.prems")
  qed
qed


lemma fuzz_cases:
  fixes r0 :: 'r and env :: "('d, 'r) env" and buf :: "byte list"
  defines "w0 \<equiv> \<lparr>data = FuzzedDataProvider env buf, rng = r0\<rparr>"
  obtains
    (short)
      "\<not> RND cfg" "remainingBytes env (FuzzedDataProvider env buf) < 16"
      "fuzz env cfg rules buf r0 =
         \<lparr>outcome = Returned (JNum (- 1)), trace = [], at_exit = None, final_world = w0\<rparr>"
  | (seed_throws) e where
      "RND cfg \<or> 16 \<le> remainingBytes env (FuzzedDataProvider env buf)"
      "rnd env cfg w0 (JNum 1) (JNum (2 ^ 35 - 31)) = Inl e"
      "fuzz env cfg rules buf r0 =
         \<lparr>outcome = Thrown (Uncaught e), trace = [], at_exit = None, final_world = w0\<rparr>"
  | (scenario_throws) x w1 e where
      "RND cfg \<or> 16 \<le> remainingBytes env (FuzzedDataProvider env buf)"
      "rnd env cfg w0 (JNum 1) (JNum (2 ^ 35 - 31)) = Inr (x, w1)"
      "pick env cfg w1 (JArr (RULES_scenarios rules)) = Inl e"
      "fuzz env cfg rules buf r0 =
         \<lparr>outcome = Thrown (Uncaught e), trace = [], at_exit = None, final_world = w1\<rparr>"
  | (entered) x w1 scenario w2 where
      "RND cfg \<or> 16 \<le> remainingBytes env (FuzzedDataProvider env buf)"
      "rnd env cfg w0 (JNum 1) (JNum (2 ^ 35 - 31)) = Inr (x, w1)"
      "pick env cfg w1 (JArr (RULES_scenarios rules)) = Inr (scenario, w2)"
      "fuzz env cfg rules buf r0 =
         prepend [CallSetup (num x) scenario []]
           (fuzz_loop env cfg rules
              [(''seed'', num x), (''scenario'', scenario), (''options'', JObj [])]
              (RULES_setup rules (num x) scenario []) 0 w2)"
proof (cases "\<not> RND cfg \<and> remainingBytes env (FuzzedDataProvider env buf) < 16")
  case True
  then show ?thesis by (intro short) (simp_all add: fuzz_def w0_def)
next
  case False
  then have enough: "RND cfg \<or> 16 \<le> remainingBytes env (FuzzedDataProvider env buf)" by auto
  show ?thesis
  proof (cases "rnd env cfg w0 (JNum 1) (JNum (2 ^ 35 - 31))")
    case (Inl e)
    with False show ?thesis
      by (intro seed_throws [of e] enough) (auto simp add: fuzz_def w0_def)
  next
    case (Inr p)
    obtain x w1 where p: "p = (x, w1)" by (cases p)
    show ?thesis
    proof (cases "pick env cfg w1 (JArr (RULES_scenarios rules))")
      case (Inl e)
      with False Inr p show ?thesis
        by (intro scenario_throws [of x w1 e] enough) (auto simp add: fuzz_def w0_def)
    next
      case q: (Inr y)
      obtain scenario w2 where y: "y = (scenario, w2)" by (cases y)
      with False Inr p q show ?thesis
        by (intro entered [of x w1 scenario w2] enough) (auto simp add: fuzz_def w0_def Let_def)
    qed
  qed
qed

section \<open>Counting the applied actions\<close>

lemma applied_count_simps [simp]:
  "applied_count rules [] = 0"
  "applied_count rules (xs @ ys) = applied_count rules xs + applied_count rules ys"
  "applied_count rules (CallView st act # xs) = applied_count rules xs"
  "applied_count rules (CallSetup seed scenario options # xs) = applied_count rules xs"
  "applied_count rules (log_crash gs st vw step act action args) = 0"
  "applied_count rules (fuzz_logged rules st vw acts action args arg) = 0"
  by (simp_all add: applied_count_def accepted_def log_crash_def fuzz_logged_def)

lemma take_action_applied:
  fixes w :: "('d, 'r) world"
  shows "take_action rules gs st vw step act acts action args arg w = Stop out evs w' \<Longrightarrow>
         applied_count rules evs = 0"
    and "take_action rules gs st vw step act acts action args arg w = Next st' evs w' \<Longrightarrow>
         applied_count rules evs = 1"
  by (cases rule: take_action_cases [of action rules gs st vw step act acts args arg w];
      auto simp: applied_count_def accepted_def log_crash_def fuzz_logged_def)+

lemma turn_applied:
  fixes w :: "('d, 'r) world"
  shows "turn env cfg rules gs st vw step act w = Stop out evs w' \<Longrightarrow> applied_count rules evs = 0"
    and "turn env cfg rules gs st vw step act w = Next st' evs w' \<Longrightarrow> applied_count rules evs = 1"
  by (cases rule: turn_cases [of vw env cfg rules gs st step act w];
      auto dest: take_action_applied)+

lemma take_action_not_bound:
  fixes w :: "('d, 'r) world"
  shows "take_action rules gs st vw step act acts action args arg w \<noteq>
         Stop (Thrown (MaxStepsExceededError m)) evs w'"
  by (cases rule: take_action_cases [of action rules gs st vw step act acts args arg w]) simp_all

lemma turn_not_bound:
  fixes w :: "('d, 'r) world"
  shows "turn env cfg rules gs st vw step act w \<noteq> Stop (Thrown (MaxStepsExceededError m)) evs w'"
  by (cases rule: turn_cases [of vw env cfg rules gs st step act w])
     (simp_all add: take_action_not_bound)

lemma take_action_not_returned:
  fixes w :: "('d, 'r) world"
  shows "take_action rules gs st vw step act acts action args arg w \<noteq> Stop (Returned v) evs w'"
  by (cases rule: take_action_cases [of action rules gs st vw step act acts args arg w]) simp_all

lemma turn_not_returned:
  fixes w :: "('d, 'r) world"
  shows "turn env cfg rules gs st vw step act w \<noteq> Stop (Returned v) evs w'"
  by (cases rule: turn_cases [of vw env cfg rules gs st step act w])
     (simp_all add: take_action_not_returned)


lemma pick_array_throws:
  assumes "pick env cfg w (JArr xs) = Inl e"
  shows "\<not> RND cfg \<and> provider_threw env e"
proof (cases "RND cfg")
  case False
  with assms show ?thesis by (auto simp: pick_def provider_threw_def split: sum.splits)
next
  case True
  obtain x r' where "random_floor env (rng w) (JNum 1) (JNum (int (length xs))) = (x, r')"
    by (cases "random_floor env (rng w) (JNum 1) (JNum (int (length xs)))")
  with assms True show ?thesis
    by (auto simp: pick_def rnd_def split: sum.splits option.splits if_splits)
qed

lemma resolve_active_throws:
  assumes "resolve_active env cfg rules st w = Inl e"
  shows "\<not> RND cfg \<and> provider_threw env e"
  using assms pick_array_throws [of env cfg w "RULES_roles rules" e]
  by (simp add: resolve_active_def split: if_splits)

lemma at_exit_leave [simp]:
  "at_exit (leave out evs st step w) = Some (st, step)"
  "outcome (leave out evs st step w) = out"
  "trace (leave out evs st step w) = evs"
  "final_world (leave out evs st step w) = w"
  by (simp_all add: leave_def)

lemma prepend_simps [simp]:
  "at_exit (prepend evs r) = at_exit r"
  "outcome (prepend evs r) = outcome r"
  "trace (prepend evs r) = evs @ trace r"
  "final_world (prepend evs r) = final_world r"
  by (simp_all add: prepend_def)

lemma fuzz_loop_counts:
  fixes w :: "('d, 'r) world"
  shows "\<exists>st' n. at_exit (fuzz_loop env cfg rules gs st step w) = Some (st', n) \<and>
           n = step + applied_count rules (trace (fuzz_loop env cfg rules gs st step w)) \<and>
           n \<le> max step (MAX_STEPS cfg + 1) \<and>
           (\<forall>m. outcome (fuzz_loop env cfg rules gs st step w) = Thrown (MaxStepsExceededError m) \<longrightarrow>
                MAX_STEPS cfg < n) \<and>
           (outcome (fuzz_loop env cfg rules gs st step w) = Returned JUndefined \<longrightarrow>
              state st' = JStr ''game_over'' \<and> n \<le> MAX_STEPS cfg) \<and>
           (outcome (fuzz_loop env cfg rules gs st step w) = Returned (JNum (- 1)) \<longrightarrow>
              \<not> RND cfg \<and>
              remainingBytes env (data (final_world (fuzz_loop env cfg rules gs st step w))) < 16) \<and>
           (MAX_STEPS cfg < n \<longrightarrow>
            RND cfg \<or>
            16 \<le> remainingBytes env (data (final_world (fuzz_loop env cfg rules gs st step w))) \<longrightarrow>
              outcome (fuzz_loop env cfg rules gs st step w) =
                Thrown (MaxStepsExceededError (bound_message cfg)) \<or>
              (\<exists>e. outcome (fuzz_loop env cfg rules gs st step w) = Thrown (Uncaught e) \<and>
                   \<not> RND cfg \<and> provider_threw env e))"
proof (induction st step w rule: fuzz_loop_induct [where env = env and cfg = cfg and rules = rules and gs = gs])
  case (turn st step w)
  show ?case
  proof (cases rule: fuzz_loop_cases [of cfg env w rules gs st step])
    case short
    then show ?thesis by simp
  next
    case (role_throws e)
    with resolve_active_throws [OF role_throws(2)] show ?thesis by simp
  next
    case (bound act w1)
    then show ?thesis by simp
  next
    case (game_over act w1)
    then show ?thesis by simp
  next
    case (stopped act w1 out evs w2)
    with turn_applied(1) [OF stopped(5)] turn_not_bound [of env cfg rules gs st _ step act w1]
      turn_not_returned [of env cfg rules gs st _ step act w1]
    show ?thesis by auto
  next
    case (continued act w1 st' evs w2)
    from turn.IH [OF continued(1-5)] turn_applied(2) [OF continued(5)] continued(3,6)
    show ?thesis by auto
  qed
qed





section \<open>Only enabled actions are chosen\<close>

lemma drawn_from_normalized_simps [simp]:
  "drawn_from_normalized cfg rules (CallSetup seed scenario options)"
  "drawn_from_normalized cfg rules (CallView st act)"
  "drawn_from_normalized cfg rules (CallFuzzLog st vw keys action args arg)"
  "drawn_from_normalized cfg rules (CallAction st act action arg) = offered cfg rules st act action"
  "drawn_from_normalized cfg rules (CallResign st act) = offered cfg rules st act (JStr ''_resign'')"
  "drawn_from_normalized cfg rules LogBlank"
  "drawn_from_normalized cfg rules (LogView vw)"
  "drawn_from_normalized cfg rules (LogStep step act)"
  "drawn_from_normalized cfg rules (LogStepAction step act action args)"
  "drawn_from_normalized cfg rules LogDumped"
  "drawn_from_normalized cfg rules (WriteFile path st)"
  by (simp_all add: drawn_from_normalized_def)

lemma applies_undefined_simps [simp]:
  "applies_undefined (CallAction st act action arg) = (action = JUndefined)"
  by (simp add: applies_undefined_def)











section \<open>The injected resignation survives normalisation\<close>

lemma remove_disabled_keeps:
  "remove_disabled es acts = Inr acts' \<Longrightarrow>
   (\<And>v. (k, v) \<in> set es \<Longrightarrow> disabled v = Inr False) \<Longrightarrow>
   map_of acts' k = map_of acts k"
proof (induction es arbitrary: acts)
  case Nil
  then show ?case by simp
next
  case (Cons e es)
  obtain key v0 where e: "e = (key, v0)" by (cases e)
  from Cons.prems(1) e obtain b where b: "disabled v0 = Inr b"
    and r: "remove_disabled es (if b then AList.delete key acts else acts) = Inr acts'"
    by (auto split: sum.splits)
  have ih: "map_of acts' k = map_of (if b then AList.delete key acts else acts) k"
    by (rule Cons.IH [OF r]) (simp add: Cons.prems(2))
  show ?case
  proof (cases "b \<and> key = k")
    case True
    with e Cons.prems(2) [of v0] b show ?thesis by simp
  next
    case False
    with ih show ?thesis by (auto simp: delete_conv)
  qed
qed

lemma normalize_keeps_resign:
  assumes "\<not> NO_RESIGN cfg" and "RULES_resign rules \<noteq> None" and "distinct (map fst acts0)"
    and "normalize cfg rules acts0 = Inr acts"
  shows "map_of acts ''_resign'' = Some (JNum 1)"
proof -
  let ?es = "AList.update ''_resign'' (JNum 1) (remove_undo cfg acts0)"
  from assms(3) have "distinct (map fst (remove_undo cfg acts0))"
    by (simp add: remove_undo_def distinct_delete)
  then have d: "distinct (map fst ?es)" by (rule distinct_update)
  have m: "map_of ?es ''_resign'' = Some (JNum 1)" by (simp add: update_conv')
  from assms(1,2,4) have r: "remove_disabled ?es ?es = Inr acts"
    by (simp add: normalize_def add_resign_def Let_def)
  have "disabled v = Inr False" if "(''_resign'', v) \<in> set ?es" for v
  proof -
    from that d m have "v = JNum 1" by simp
    then show ?thesis by (simp add: disabled_def)
  qed
  from remove_disabled_keeps [OF r this] m show ?thesis by simp
qed


lemma take_action_never_no_actions:
  fixes w :: "('d, 'r) world"
  shows "take_action rules gs st vw step act acts action args arg w \<noteq>
         Stop (Thrown (NoMoreActionsError m)) evs w'"
  by (cases rule: take_action_cases [of action rules gs st vw step act acts args arg w]) simp_all

text \<open>
  Claim C10.  When the engine declares \<open>resign\<close>, resignation is not suppressed and
  the view has an actions object (with distinct keys, as every object has): the
  normalised action set, when normalisation returns one, holds \<open>_resign\<close> with
  descriptor \<open>1\<close> and is therefore not empty, and the turn does not end with the error
  for missing or exhausted actions.
\<close>

theorem resign_keeps_action_set_nonempty:
  fixes w :: "('d, 'r) world"
  assumes "\<not> NO_RESIGN cfg" and "RULES_resign rules \<noteq> None"
    and "actions vw = Some acts0" and "distinct (map fst acts0)"
  shows "(\<forall>acts. normalize cfg rules acts0 = Inr acts \<longrightarrow>
            map_of acts ''_resign'' = Some (JNum 1) \<and> object_keys acts \<noteq> []) \<and>
         (\<forall>m evs w'. turn env cfg rules gs st vw step act w \<noteq>
            Stop (Thrown (NoMoreActionsError m)) evs w')"
proof -
  have keep: "map_of acts ''_resign'' = Some (JNum 1)" if "normalize cfg rules acts0 = Inr acts" for acts
    by (rule normalize_keeps_resign [OF assms(1,2,4) that])
  have "turn env cfg rules gs st vw step act w \<noteq> Stop (Thrown (NoMoreActionsError m)) evs w'"
    for m evs w'
  proof (cases rule: turn_cases [of vw env cfg rules gs st step act w])
    case no_actions
    with assms(3) show ?thesis by simp
  next
    case (nothing_left acts0')
    with assms(3) keep [of "[]"] show ?thesis by simp
  qed (simp_all add: take_action_never_no_actions)
  moreover have "object_keys acts \<noteq> []" if "normalize cfg rules acts0 = Inr acts" for acts
    using keep [OF that] by (auto simp: object_keys_def)
  ultimately show ?thesis using keep by blast
qed

theorem resign_keeps_action_set_nonempty_witness:
  "\<not> NO_RESIGN resign_cfg \<and> RULES_resign resign_rules \<noteq> None \<and>
   actions (RULES_view resign_rules (demo_state 0) (JStr ''Red'')) = Some [(''pass'', JNum 0)] \<and>
   distinct (map fst [(''pass'', JNum 0)]) \<and>
   normalize resign_cfg resign_rules [(''pass'', JNum 0)] = Inr [(''_resign'', JNum 1)] \<and>
   map_of [(''_resign'', JNum 1)] ''_resign'' = Some (JNum 1) \<and>
   object_keys [(''_resign'', JNum 1)] \<noteq> [] \<and>
   turn demo_env resign_cfg resign_rules [] (demo_state 0)
     (RULES_view resign_rules (demo_state 0) (JStr ''Red'')) 0 (JStr ''Red'')
     \<lparr>data = replicate 20 0, rng = 0 :: nat\<rparr> \<noteq>
   Stop (Thrown (NoMoreActionsError ''No more actions to take (besides undo)'')) []
     \<lparr>data = replicate 20 0, rng = 0 :: nat\<rparr>"
proof -
  have a: "\<not> NO_RESIGN resign_cfg" by (simp add: resign_cfg_def)
  have b: "RULES_resign resign_rules \<noteq> None" by (simp add: resign_rules_def)
  have c: "actions (RULES_view resign_rules (demo_state 0) (JStr ''Red'')) = Some [(''pass'', JNum 0)]"
    by (simp add: resign_rules_def demo_view_def)
  have d: "distinct (map fst [(''pass'', JNum 0)])" by simp
  have n: "normalize resign_cfg resign_rules [(''pass'', JNum 0)] = Inr [(''_resign'', JNum 1)]"
    by code_simp
  from resign_keeps_action_set_nonempty [OF a b c d] a b c d n
  show ?thesis by blast
qed


section \<open>Errors raised by the engine\<close>

lemma raised_simps [simp]:
  "raised rules (CallSetup seed scenario options) = None"
  "raised rules (CallView st act) = None"
  "raised rules (CallFuzzLog st vw keys action args arg) = None"
  "raised rules LogBlank = None"
  "raised rules (LogView vw) = None"
  "raised rules (LogStep step act) = None"
  "raised rules (LogStepAction step act action args) = None"
  "raised rules LogDumped = None"
  "raised rules (WriteFile path st) = None"
  by (simp_all add: raised_def)

lemma raised_in_log_crash:
  "ev \<in> set (log_crash gs st vw step act action args) \<Longrightarrow> raised rules ev = None"
  by (auto simp: log_crash_def)

lemma raised_in_fuzz_logged:
  "ev \<in> set (fuzz_logged rules st vw acts action args arg) \<Longrightarrow> raised rules ev = None"
  by (auto simp: fuzz_logged_def split: if_splits)

lemma crash_report_Cons:
  "crash_report gs st st_left step ev evs \<Longrightarrow> crash_report gs st st_left step ev (x # evs)"
  unfolding crash_report_def by (metis append_Cons)

lemma crash_report_append:
  "crash_report gs st st_left step ev evs \<Longrightarrow> crash_report gs st st_left step ev (xs @ evs)"
  by (induction xs) (simp_all add: crash_report_Cons)

lemma take_action_raised:
  fixes w :: "('d, 'r) world"
  assumes "ev \<in> set (events_of (take_action rules gs st vw step act acts action args arg w))"
    and "raised rules ev = Some (e, st_left)"
  shows "\<exists>evs w'. take_action rules gs st vw step act acts action args arg w =
            Stop (Thrown (rules_crash e)) evs w' \<and> crash_report gs st st_left step ev evs"
proof (cases rule: take_action_cases [of action rules gs st vw step act acts args arg w])
  case resign_missing
  with assms show ?thesis
    by (auto simp: events_of_def dest: raised_in_log_crash [where rules = rules] raised_in_fuzz_logged)
next
  case (action_throws e' st')
  with assms have "ev = CallAction st act action arg"
    by (auto simp: events_of_def dest: raised_in_log_crash [where rules = rules] raised_in_fuzz_logged)
  with assms(2) action_throws show ?thesis
    by (auto simp: raised_def crash_report_def)
next
  case (action_returns st')
  with assms show ?thesis
    by (auto simp: events_of_def raised_def dest: raised_in_fuzz_logged)
next
  case (resign_throws resign e' st')
  with assms have "ev = CallResign st act"
    by (auto simp: events_of_def dest: raised_in_log_crash [where rules = rules] raised_in_fuzz_logged)
  with assms(2) resign_throws show ?thesis
    by (auto simp: raised_def crash_report_def)
next
  case (resign_returns resign st')
  with assms show ?thesis
    by (auto simp: events_of_def raised_def dest: raised_in_fuzz_logged)
qed

lemma turn_raised:
  fixes w :: "('d, 'r) world"
  assumes "ev \<in> set (events_of (turn env cfg rules gs st vw step act w))"
    and "raised rules ev = Some (e, st_left)"
  shows "\<exists>evs w'. turn env cfg rules gs st vw step act w =
            Stop (Thrown (rules_crash e)) evs w' \<and> crash_report gs st st_left step ev evs"
proof (cases rule: turn_cases [of vw env cfg rules gs st step act w])
  case (with_arg acts0 acts action w1 arg w2)
  with assms take_action_raised [of ev rules gs st _ step act acts action _ arg w2 e st_left]
  show ?thesis by simp
next
  case (without_arg acts0 acts action w1)
  with assms take_action_raised [of ev rules gs st _ step act acts action _ JNull w1 e st_left]
  show ?thesis by simp
qed (use assms in \<open>auto simp: events_of_def dest: raised_in_log_crash [where rules = rules]\<close>)

lemma fuzz_loop_raised:
  fixes w :: "('d, 'r) world"
  assumes "ev \<in> set (trace (fuzz_loop env cfg rules gs st step w))"
    and "raised rules ev = Some (e, st_left)"
  shows "outcome (fuzz_loop env cfg rules gs st step w) = Thrown (rules_crash e) \<and>
         (\<exists>st' n. at_exit (fuzz_loop env cfg rules gs st step w) = Some (st', n) \<and>
            crash_report gs st' st_left n ev (trace (fuzz_loop env cfg rules gs st step w)))"
  using assms(1)
proof (induction st step w rule: fuzz_loop_induct [where env = env and cfg = cfg and rules = rules and gs = gs])
  case (turn st step w)
  note ev = turn.prems
  show ?case
  proof (cases rule: fuzz_loop_cases [of cfg env w rules gs st step])
    case short
    with ev show ?thesis by simp
  next
    case (role_throws e')
    with ev show ?thesis by simp
  next
    case (bound act w1)
    with ev assms(2) show ?thesis by (auto dest: raised_in_log_crash [where rules = rules])
  next
    case (game_over act w1)
    with ev assms(2) show ?thesis by auto
  next
    case (stopped act w1 out evs w2)
    with ev assms(2) have "ev \<in> set (events_of (turn env cfg rules gs st (RULES_view rules st act) step act w1))"
      by (auto simp: events_of_def)
    from turn_raised [OF this assms(2)] stopped(5,6) show ?thesis
      by (auto simp: crash_report_Cons)
  next
    case (continued act w1 st' evs w2)
    have "ev \<notin> set evs"
    proof
      assume "ev \<in> set evs"
      with continued(5)
      have "ev \<in> set (events_of (turn env cfg rules gs st (RULES_view rules st act) step act w1))"
        by (simp add: events_of_def)
      from turn_raised [OF this assms(2)] continued(5) show False by simp
    qed
    with ev assms(2) continued(6)
    have "ev \<in> set (trace (fuzz_loop env cfg rules gs st' (step + 1) w2))" by auto
    from turn.IH [OF continued(1-5) this] continued(6) show ?thesis
      using crash_report_append [of gs _ _ _ ev _ "CallView st act # evs"] by auto
  qed
qed


text \<open>
  Claim C8, as the code has it.  When a call into the engine in the trace of a run threw
  and the engine had accepted two actions in that run (the failing call is the third
  application, at step index 2): the trace ends with the failing call followed by the
  dump, whose summary line shows step \<open>2\<close> with the action and argument of the call and
  whose last event writes to \<^verbatim>\<open>crash-state.json\<close> the state object as the failed call
  left it; the loop is left at step \<open>2\<close> in the round that began with the state passed
  to the failing call.  The error raised wraps what the engine threw, unless that is
  \<^verbatim>\<open>null\<close> or \<^verbatim>\<open>undefined\<close>: then a TypeError is raised in its place.
\<close>

theorem engine_error_on_third_action:
  fixes r0 :: 'r and env :: "('d, 'r) env" and cfg :: config and rules :: rules and buf :: "byte list"
  defines "r \<equiv> fuzz env cfg rules buf r0"
  assumes "ev \<in> set (trace r)" and "raised rules ev = Some (e, st_left)"
    and "applied_count rules (trace r) = 2"
  shows "(e \<noteq> Value JNull \<and> e \<noteq> Value JUndefined \<longrightarrow> outcome r = Thrown (RulesCrashError e)) \<and>
         (e = Value JNull \<or> e = Value JUndefined \<longrightarrow> (\<exists>m. outcome r = Thrown (Uncaught (TypeError m)))) \<and>
         (\<exists>st act action arg vw pre.
            (ev = CallAction st act action arg \<or> ev = CallResign st act \<and> action = JStr ''_resign'') \<and>
            trace r =
              pre @ [ev, LogBlank, LogView vw,
                     if action \<noteq> JUndefined then LogStepAction 2 act action arg else LogStep 2 act,
                     LogDumped, WriteFile ''crash-state.json'' st_left] \<and>
            at_exit r = Some (st, 2))"
proof (cases rule: fuzz_cases [of cfg env buf rules r0])
  case short
  with assms(2) show ?thesis by (simp add: r_def)
next
  case (seed_throws e')
  with assms(2) show ?thesis by (simp add: r_def)
next
  case (scenario_throws x w1 e')
  with assms(2) show ?thesis by (simp add: r_def)
next
  case (entered x w1 scenario w2)
  let ?gs = "[(''seed'', num x), (''scenario'', scenario), (''options'', JObj [])]"
  let ?st = "RULES_setup rules (num x) scenario []"
  let ?l = "fuzz_loop env cfg rules ?gs ?st 0 w2"
  from entered(4) have r: "r = prepend [CallSetup (num x) scenario []] ?l" by (simp add: r_def)
  with assms(2,3) have ev: "ev \<in> set (trace ?l)" by auto
  from fuzz_loop_raised [OF ev assms(3)] obtain st' n
    where o: "outcome ?l = Thrown (rules_crash e)" and x: "at_exit ?l = Some (st', n)"
      and c: "crash_report ?gs st' st_left n ev (trace ?l)"
    by blast
  from fuzz_loop_counts [of env cfg rules ?gs ?st 0 w2] x assms(4) r have n: "n = 2" by simp
  from c n obtain pre vw act action arg
    where a: "ev = CallAction st' act action arg \<or> ev = CallResign st' act \<and> action = JStr ''_resign''"
      and t: "trace ?l = pre @ ev # log_crash ?gs st_left vw 2 act action arg"
    unfolding crash_report_def by blast
  from o r rules_crash_wraps [of e]
  have wraps: "e \<noteq> Value JNull \<and> e \<noteq> Value JUndefined \<longrightarrow> outcome r = Thrown (RulesCrashError e)"
    by simp
  from o r rules_crash_null [of e]
  have null: "e = Value JNull \<or> e = Value JUndefined \<longrightarrow> (\<exists>m. outcome r = Thrown (Uncaught (TypeError m)))"
    by auto
  have dump: "\<exists>st act action arg vw pre.
            (ev = CallAction st act action arg \<or> ev = CallResign st act \<and> action = JStr ''_resign'') \<and>
            trace r =
              pre @ [ev, LogBlank, LogView vw,
                     if action \<noteq> JUndefined then LogStepAction 2 act action arg else LogStep 2 act,
                     LogDumped, WriteFile ''crash-state.json'' st_left] \<and>
            at_exit r = Some (st, 2)"
    using a t x n r
    by (intro exI [of _ st'] exI [of _ act] exI [of _ action] exI [of _ arg] exI [of _ vw]
        exI [of _ "CallSetup (num x) scenario [] # pre"]) (simp add: log_crash_def)
  from wraps null dump show ?thesis by blast
qed

theorem engine_error_on_third_action_witness:
  "CallAction (demo_state 2) (JStr ''Blue'') (JStr ''pass'') JNull
     \<in> set (trace (fuzz demo_env demo_cfg crash_rules (replicate 64 3) (0 :: nat))) \<and>
   raised crash_rules (CallAction (demo_state 2) (JStr ''Blue'') (JStr ''pass'') JNull) =
     Some (Error ''illegal move'', demo_state 2) \<and>
   applied_count crash_rules (trace (fuzz demo_env demo_cfg crash_rules (replicate 64 3) (0 :: nat))) = 2 \<and>
   Error ''illegal move'' \<noteq> Value JNull \<and> Error ''illegal move'' \<noteq> Value JUndefined \<and>
   outcome (fuzz demo_env demo_cfg crash_rules (replicate 64 3) (0 :: nat)) =
     Thrown (RulesCrashError (Error ''illegal move'')) \<and>
   at_exit (fuzz demo_env demo_cfg crash_rules (replicate 64 3) (0 :: nat)) = Some (demo_state 2, 2) \<and>
   last (trace (fuzz demo_env demo_cfg crash_rules (replicate 64 3) (0 :: nat))) =
     WriteFile ''crash-state.json'' (demo_state 2) \<and>
   LogStepAction 2 (JStr ''Blue'') (JStr ''pass'') JNull
     \<in> set (trace (fuzz demo_env demo_cfg crash_rules (replicate 64 3) (0 :: nat)))"
proof -
  let ?r = "fuzz demo_env demo_cfg crash_rules (replicate 64 3) (0 :: nat)"
  let ?ev = "CallAction (demo_state 2) (JStr ''Blue'') (JStr ''pass'') JNull"
  have a: "?ev \<in> set (trace ?r)" by code_simp
  have b: "raised crash_rules ?ev = Some (Error ''illegal move'', demo_state 2)" by code_simp
  have c: "applied_count crash_rules (trace ?r) = 2" by code_simp
  have x: "at_exit ?r = Some (demo_state 2, 2)" by code_simp
  have l: "last (trace ?r) = WriteFile ''crash-state.json'' (demo_state 2)" by code_simp
  have s: "LogStepAction 2 (JStr ''Blue'') (JStr ''pass'') JNull \<in> set (trace ?r)" by code_simp
  from engine_error_on_third_action [OF a b c]
  have "outcome ?r = Thrown (RulesCrashError (Error ''illegal move''))"
    by simp
  with a b c x l s show ?thesis by simp
qed

text \<open>
  Claim C8 as stated fails in two ways.  An engine that has counted the third action in
  the state object before it throws leaves that change in the object: the file written
  holds the state with count \<open>3\<close>, not the state with count \<open>2\<close> that was passed to
  the failing call.  And when the engine throws \<^verbatim>\<open>null\<close>, line 139 fails on
  \<^verbatim>\<open>e.stack\<close> after the dump: the error that reaches the caller is a TypeError, not
  the rules-crash error.
\<close>

theorem engine_error_counterexample:
  "raised mutating_rules (CallAction (demo_state 2) (JStr ''Blue'') (JStr ''pass'') JNull) =
     Some (Error ''illegal move'', (demo_state 2)\<lparr>game := [(''n'', JNum 3)]\<rparr>) \<and>
   applied_count mutating_rules
     (trace (fuzz demo_env demo_cfg mutating_rules (replicate 64 3) (0 :: nat))) = 2 \<and>
   drop 6 (trace (fuzz demo_env demo_cfg mutating_rules (replicate 64 3) (0 :: nat))) =
     [CallAction (demo_state 2) (JStr ''Blue'') (JStr ''pass'') JNull,
      LogBlank,
      LogView (demo_view [(''move'', JArr [JNum 1, JNum 2]), (''pass'', JNum 1)]),
      LogStepAction 2 (JStr ''Blue'') (JStr ''pass'') JNull,
      LogDumped,
      WriteFile ''crash-state.json'' ((demo_state 2)\<lparr>game := [(''n'', JNum 3)]\<rparr>)] \<and>
   (demo_state 2)\<lparr>game := [(''n'', JNum 3)]\<rparr> \<noteq> demo_state 2 \<and>
   raised null_throw_rules (CallAction (demo_state 2) (JStr ''Blue'') (JStr ''pass'') JNull) =
     Some (Value JNull, demo_state 2) \<and>
   applied_count null_throw_rules
     (trace (fuzz demo_env demo_cfg null_throw_rules (replicate 64 3) (0 :: nat))) = 2 \<and>
   outcome (fuzz demo_env demo_cfg null_throw_rules (replicate 64 3) (0 :: nat)) =
     Thrown (Uncaught (TypeError
       (''Cannot read properties of null (reading '' @ [CHR 0x27] @ ''stack'' @ [CHR 0x27] @ '')'')))"
  by code_simp


section \<open>The view shown by a dump\<close>

lemma LogView_in_log_crash [simp]:
  "LogView v \<in> set (log_crash gs st vw step act action args) \<longleftrightarrow> v = vw"
  by (auto simp: log_crash_def)

lemma LogView_in_fuzz_logged [simp]:
  "LogView v \<notin> set (fuzz_logged rules st vw acts action args arg)"
  by (simp add: fuzz_logged_def)

lemma take_action_dump:
  fixes w :: "('d, 'r) world"
  assumes "LogView v \<in> set (events_of (take_action rules gs st vw step act acts action args arg w))"
  shows "v = vw \<and> (\<exists>out evs w'. take_action rules gs st vw step act acts action args arg w =
           Stop out evs w' \<and> \<not> dumped_before_normalisation out)"
proof (cases rule: take_action_cases [of action rules gs st vw step act acts args arg w])
  case resign_missing
  with assms show ?thesis by (auto simp: events_of_def dumped_before_normalisation_def)
qed (use assms in \<open>auto simp: events_of_def\<close>)

lemma turn_dump:
  fixes w :: "('d, 'r) world"
  assumes "LogView v \<in> set (events_of (turn env cfg rules gs st vw step act w))"
  shows "\<exists>out evs w'. turn env cfg rules gs st vw step act w = Stop out evs w' \<and>
           (if dumped_before_normalisation out then v = vw
            else normalized_view cfg rules vw = Some v)"
proof (cases rule: turn_cases [of vw env cfg rules gs st step act w])
  case no_actions
  with assms show ?thesis
    by (simp add: events_of_def dumped_before_normalisation_def)
next
  case (normalize_throws acts0 e)
  with assms show ?thesis by (simp add: events_of_def)
next
  case (nothing_left acts0)
  with assms show ?thesis
    by (simp add: events_of_def dumped_before_normalisation_def normalized_view_def)
next
  case (pick_throws acts0 acts e)
  with assms show ?thesis by (simp add: events_of_def)
next
  case (nan_pool acts0 acts action w1)
  with assms show ?thesis
    by (simp add: events_of_def dumped_before_normalisation_def normalized_view_def)
next
  case (arg_throws acts0 acts action w1 e)
  with assms show ?thesis by (simp add: events_of_def)
next
  case (with_arg acts0 acts action w1 arg w2)
  with assms take_action_dump [of v rules gs st "vw\<lparr>actions := Some acts\<rparr>" step act acts action
      "descriptor_of acts action" arg w2]
  show ?thesis
    by (auto simp: dumped_before_normalisation_def normalized_view_def)
next
  case (without_arg acts0 acts action w1)
  with assms take_action_dump [of v rules gs st "vw\<lparr>actions := Some acts\<rparr>" step act acts action
      "descriptor_of acts action" JNull w1]
  show ?thesis
    by (auto simp: dumped_before_normalisation_def normalized_view_def)
qed

lemma fuzz_loop_dump:
  fixes w :: "('d, 'r) world"
  assumes "LogView v \<in> set (trace (fuzz_loop env cfg rules gs st step w))"
  shows "\<exists>st' n act. at_exit (fuzz_loop env cfg rules gs st step w) = Some (st', n) \<and>
           CallView st' act \<in> set (trace (fuzz_loop env cfg rules gs st step w)) \<and>
           (if dumped_before_normalisation (outcome (fuzz_loop env cfg rules gs st step w))
            then v = RULES_view rules st' act
            else normalized_view cfg rules (RULES_view rules st' act) = Some v)"
  using assms
proof (induction st step w rule: fuzz_loop_induct [where env = env and cfg = cfg and rules = rules and gs = gs])
  case (turn st step w)
  note v = turn.prems
  show ?case
  proof (cases rule: fuzz_loop_cases [of cfg env w rules gs st step])
    case short
    with v show ?thesis by simp
  next
    case (role_throws e)
    with v show ?thesis by simp
  next
    case (bound act w1)
    with v show ?thesis by (auto simp: dumped_before_normalisation_def)
  next
    case (game_over act w1)
    with v show ?thesis by simp
  next
    case (stopped act w1 out evs w2)
    with v have "LogView v \<in> set (events_of (turn env cfg rules gs st (RULES_view rules st act) step act w1))"
      by (simp add: events_of_def)
    from turn_dump [OF this] stopped(5) have
      "if dumped_before_normalisation out then v = RULES_view rules st act
       else normalized_view cfg rules (RULES_view rules st act) = Some v"
      by simp
    with stopped(6) show ?thesis
      by (intro exI [of _ st] exI [of _ step] exI [of _ act]) simp
  next
    case (continued act w1 st' evs w2)
    have "LogView v \<notin> set evs"
    proof
      assume "LogView v \<in> set evs"
      with continued(5)
      have "LogView v \<in> set (events_of (turn env cfg rules gs st (RULES_view rules st act) step act w1))"
        by (simp add: events_of_def)
      from turn_dump [OF this] continued(5) show False by simp
    qed
    with v continued(6)
    have "LogView v \<in> set (trace (fuzz_loop env cfg rules gs st' (step + 1) w2))" by auto
    from turn.IH [OF continued(1-5) this] obtain st'' n act'
      where "at_exit (fuzz_loop env cfg rules gs st' (step + 1) w2) = Some (st'', n)"
        and "CallView st'' act' \<in> set (trace (fuzz_loop env cfg rules gs st' (step + 1) w2))"
        and "if dumped_before_normalisation (outcome (fuzz_loop env cfg rules gs st' (step + 1) w2))
             then v = RULES_view rules st'' act'
             else normalized_view cfg rules (RULES_view rules st'' act') = Some v"
      by blast
    with continued(6) show ?thesis
      by (intro exI [of _ st''] exI [of _ n] exI [of _ act']) simp
  qed
qed

text \<open>
  Claim C7, as the code has it.  Normalisation works on the actions object of the view
  itself.  The view that a run dumps is the engine's view of the state at exit for the
  acting role: unchanged when the dump is written before normalisation (step bound
  exceeded, or no actions in the view), and otherwise with its actions replaced by the
  normalised action set.
\<close>

theorem dumped_view_is_normalised:
  fixes r0 :: 'r and env :: "('d, 'r) env" and cfg :: config and rules :: rules and buf :: "byte list"
  defines "r \<equiv> fuzz env cfg rules buf r0"
  assumes "LogView v \<in> set (trace r)"
  shows "\<exists>st n act. at_exit r = Some (st, n) \<and> CallView st act \<in> set (trace r) \<and>
           (if dumped_before_normalisation (outcome r) then v = RULES_view rules st act
            else normalized_view cfg rules (RULES_view rules st act) = Some v)"
proof (cases rule: fuzz_cases [of cfg env buf rules r0])
  case short
  with assms(2) show ?thesis by (simp add: r_def)
next
  case (seed_throws e)
  with assms(2) show ?thesis by (simp add: r_def)
next
  case (scenario_throws x w1 e)
  with assms(2) show ?thesis by (simp add: r_def)
next
  case (entered x w1 scenario w2)
  let ?gs = "[(''seed'', num x), (''scenario'', scenario), (''options'', JObj [])]"
  let ?st = "RULES_setup rules (num x) scenario []"
  let ?l = "fuzz_loop env cfg rules ?gs ?st 0 w2"
  from entered(4) have r: "r = prepend [CallSetup (num x) scenario []] ?l" by (simp add: r_def)
  with assms(2) have "LogView v \<in> set (trace ?l)" by simp
  from fuzz_loop_dump [OF this] obtain st n act
    where "at_exit ?l = Some (st, n)" and "CallView st act \<in> set (trace ?l)"
      and "if dumped_before_normalisation (outcome ?l) then v = RULES_view rules st act
           else normalized_view cfg rules (RULES_view rules st act) = Some v"
    by blast
  with r show ?thesis
    by (intro exI [of _ st] exI [of _ n] exI [of _ act]) simp
qed

theorem dumped_view_is_normalised_witness:
  "LogView (demo_view []) \<in> set (trace (fuzz demo_env demo_cfg stuck_rules (replicate 32 3) (0 :: nat))) \<and>
   at_exit (fuzz demo_env demo_cfg stuck_rules (replicate 32 3) (0 :: nat)) = Some (demo_state 0, 0) \<and>
   \<not> dumped_before_normalisation (outcome (fuzz demo_env demo_cfg stuck_rules (replicate 32 3) (0 :: nat))) \<and>
   normalized_view demo_cfg stuck_rules (RULES_view stuck_rules (demo_state 0) (JStr ''Blue'')) =
     Some (demo_view [])"
proof -
  let ?r = "fuzz demo_env demo_cfg stuck_rules (replicate 32 3) (0 :: nat)"
  have a: "LogView (demo_view []) \<in> set (trace ?r)" by code_simp
  have x: "at_exit ?r = Some (demo_state 0, 0)" by code_simp
  have d: "\<not> dumped_before_normalisation (outcome ?r)" by code_simp
  have n: "normalized_view demo_cfg stuck_rules (RULES_view stuck_rules (demo_state 0) (JStr ''Blue'')) =
     Some (demo_view [])" by code_simp
  from dumped_view_is_normalised [OF a] x d
  have "\<exists>act. normalized_view demo_cfg stuck_rules (RULES_view stuck_rules (demo_state 0) act) =
     Some (demo_view [])" by auto
  with a x d n show ?thesis by blast
qed

text \<open>
  Claim C7 as stated fails.  The view of the engine offers one disabled action; the run
  finds nothing left after normalisation and dumps the view with no action at all,
  which is not the view that the engine returned.
\<close>

theorem dumped_view_counterexample:
  "RULES_view stuck_rules (demo_state 0) (JStr ''Blue'') = demo_view [(''pass'', JNum 0)] \<and>
   trace (fuzz demo_env demo_cfg stuck_rules (replicate 32 3) (0 :: nat)) =
     [CallSetup (JNum 4) (JStr ''Standard'') [],
      CallView (demo_state 0) (JStr ''Blue''),
      LogBlank,
      LogView (demo_view []),
      LogStep 0 (JStr ''Blue''),
      LogDumped,
      WriteFile ''crash-state.json'' (demo_state 0)] \<and>
   demo_view [] \<noteq> demo_view [(''pass'', JNum 0)]"
  by code_simp


section \<open>A game that is over at setup\<close>

text \<open>
  Claim C9, as the code has it.  When the loop is entered (the draws of seed and scenario
  have succeeded) with a state from \<open>setup\<close> whose state field is \<open>game_over\<close> and
  with enough input left, the role of the first round is resolved without an error of
  the byte provider, and \<open>MAX_STEPS\<close> is not negative: the run returns normally
  (\<^verbatim>\<open>undefined\<close>) at step \<open>0\<close>; its trace holds the calls of \<open>setup\<close> and
  \<open>view\<close> only, so no action was applied, nothing was logged and no file was written.
\<close>

theorem game_over_at_setup:
  fixes r0 :: 'r and env :: "('d, 'r) env"
  assumes "RND cfg \<or> 16 \<le> remainingBytes env (FuzzedDataProvider env buf)"
    and "rnd env cfg \<lparr>data = FuzzedDataProvider env buf, rng = r0\<rparr> (JNum 1) (JNum (2 ^ 35 - 31)) =
           Inr (x, w1)"
    and "pick env cfg w1 (JArr (RULES_scenarios rules)) = Inr (scenario, w2)"
    and "st = RULES_setup rules (num x) scenario []"
    and "state st = JStr ''game_over''"
    and "RND cfg \<or> 16 \<le> remainingBytes env (data w2)"
    and "resolve_active env cfg rules st w2 = Inr (act, w3)"
    and "0 \<le> MAX_STEPS cfg"
  shows "fuzz env cfg rules buf r0 =
           \<lparr>outcome = Returned JUndefined,
            trace = [CallSetup (num x) scenario [], CallView st act],
            at_exit = Some (st, 0),
            final_world = w3\<rparr>"
proof -
  let ?gs = "[(''seed'', num x), (''scenario'', scenario), (''options'', JObj [])]"
  have loop: "fuzz_loop env cfg rules ?gs st 0 w2 = leave (Returned JUndefined) [CallView st act] st 0 w3"
    using assms(5-8) by (auto simp: fuzz_loop.simps [of env cfg rules ?gs st 0 w2])
  have "fuzz env cfg rules buf r0 = prepend [CallSetup (num x) scenario []] (fuzz_loop env cfg rules ?gs st 0 w2)"
    using assms(1-4) by (auto simp: fuzz_def Let_def)
  with loop show ?thesis by (simp add: prepend_def leave_def)
qed

theorem game_over_at_setup_witness:
  "(RND demo_cfg \<or> 16 \<le> remainingBytes demo_env (FuzzedDataProvider demo_env (replicate 32 3))) \<and>
   rnd demo_env demo_cfg \<lparr>data = FuzzedDataProvider demo_env (replicate 32 3), rng = 0 :: nat\<rparr>
     (JNum 1) (JNum (2 ^ 35 - 31)) = Inr (Some 4, \<lparr>data = replicate 31 3, rng = 0\<rparr>) \<and>
   pick demo_env demo_cfg \<lparr>data = replicate 31 3, rng = 0 :: nat\<rparr> (JArr (RULES_scenarios over_rules)) =
     Inr (JStr ''Standard'', \<lparr>data = replicate 31 3, rng = 0\<rparr>) \<and>
   state (RULES_setup over_rules (num (Some 4)) (JStr ''Standard'') []) = JStr ''game_over'' \<and>
   (RND demo_cfg \<or> 16 \<le> remainingBytes demo_env (data \<lparr>data = replicate 31 3, rng = 0 :: nat\<rparr>)) \<and>
   resolve_active demo_env demo_cfg over_rules (demo_state 3) \<lparr>data = replicate 31 3, rng = 0 :: nat\<rparr> =
     Inr (JStr ''Blue'', \<lparr>data = replicate 30 3, rng = 0\<rparr>) \<and>
   0 \<le> MAX_STEPS demo_cfg \<and>
   fuzz demo_env demo_cfg over_rules (replicate 32 3) (0 :: nat) =
     \<lparr>outcome = Returned JUndefined,
      trace = [CallSetup (JNum 4) (JStr ''Standard'') [], CallView (demo_state 3) (JStr ''Blue'')],
      at_exit = Some (demo_state 3, 0),
      final_world = \<lparr>data = replicate 30 3, rng = 0\<rparr>\<rparr>"
proof -
  have a: "RND demo_cfg \<or> 16 \<le> remainingBytes demo_env (FuzzedDataProvider demo_env (replicate 32 3))"
    by code_simp
  have b: "rnd demo_env demo_cfg \<lparr>data = FuzzedDataProvider demo_env (replicate 32 3), rng = 0 :: nat\<rparr>
     (JNum 1) (JNum (2 ^ 35 - 31)) = Inr (Some 4, \<lparr>data = replicate 31 3, rng = 0\<rparr>)"
    by code_simp
  have c: "pick demo_env demo_cfg \<lparr>data = replicate 31 3, rng = 0 :: nat\<rparr> (JArr (RULES_scenarios over_rules)) =
     Inr (JStr ''Standard'', \<lparr>data = replicate 31 3, rng = 0\<rparr>)"
    by code_simp
  have d: "demo_state 3 = RULES_setup over_rules (num (Some 4)) (JStr ''Standard'') []"
    by code_simp
  have e: "state (demo_state 3) = JStr ''game_over''" by code_simp
  have f: "RND demo_cfg \<or> 16 \<le> remainingBytes demo_env (data \<lparr>data = replicate 31 3, rng = 0 :: nat\<rparr>)"
    by code_simp
  have g: "resolve_active demo_env demo_cfg over_rules (demo_state 3) \<lparr>data = replicate 31 3, rng = 0 :: nat\<rparr> =
     Inr (JStr ''Blue'', \<lparr>data = replicate 30 3, rng = 0\<rparr>)"
    by code_simp
  have h: "0 \<le> MAX_STEPS demo_cfg" by code_simp
  from game_over_at_setup [OF a b c d e f g h] a b c d e f g h
  show ?thesis by (simp add: num_def)
qed

text \<open>
  Claim C9 as stated fails in two ways, both on an engine whose \<open>setup\<close> returns a
  finished game and with 31 bytes left at loop entry.  The state names \<open>Both\<close> as the
  active role, so the role is picked from the engine's roles; when the engine declares
  none, the byte provider throws on the empty array and that error reaches the caller.
  And the bound is checked before the end of the game (line 69 before line 74), so with
  \<open>MAX_STEPS = -1\<close> the run dumps the state and raises the bound error at step \<open>0\<close>.
\<close>

theorem game_over_at_setup_counterexample:
  "state (RULES_setup no_roles_rules (JNum 4) (JStr ''Standard'') []) = JStr ''game_over'' \<and>
   fuzz demo_env demo_cfg no_roles_rules (replicate 32 3) (0 :: nat) =
     \<lparr>outcome = Thrown (Uncaught (Error ''provided array is empty'')),
      trace = [CallSetup (JNum 4) (JStr ''Standard'') []],
      at_exit = Some (demo_state 3, 0),
      final_world = \<lparr>data = replicate 31 3, rng = 0\<rparr>\<rparr> \<and>
   state (RULES_setup over_rules (JNum 4) (JStr ''Standard'') []) = JStr ''game_over'' \<and>
   fuzz demo_env (demo_cfg\<lparr>MAX_STEPS := - 1\<rparr>) over_rules (replicate 32 3) (0 :: nat) =
     \<lparr>outcome = Thrown (MaxStepsExceededError ''Maximum step count (MAX_STEPS=-1) exceeded''),
      trace =
        [CallSetup (JNum 4) (JStr ''Standard'') [],
         CallView (demo_state 3) (JStr ''Blue''),
         LogBlank,
         LogView (RULES_view over_rules (demo_state 3) (JStr ''Blue'')),
         LogStep 0 (JStr ''Blue''),
         LogDumped,
         WriteFile ''crash-state.json'' (demo_state 3)],
      at_exit = Some (demo_state 3, 0),
      final_world = \<lparr>data = replicate 30 3, rng = 0\<rparr>\<rparr>"
  by code_simp


section \<open>Which errors reach the caller, and after which dump\<close>

lemma take_action_error_dumped:
  fixes w :: "('d, 'r) world"
  assumes "take_action rules gs st vw step act acts action args arg w = Stop (Thrown err) evs w'"
  shows "\<exists>pre st'. evs = pre @ log_crash gs st' vw step act action arg"
proof (cases rule: take_action_cases [of action rules gs st vw step act acts args arg w])
  case resign_missing
  with assms show ?thesis by auto
next
  case (action_throws e st_left)
  with assms have "evs = (fuzz_logged rules st vw acts action args arg @ [CallAction st act action arg]) @
      log_crash gs st_left vw step act action arg" by auto
  then show ?thesis by blast
next
  case (resign_throws resign e st_left)
  with assms have "evs = (fuzz_logged rules st vw acts action args arg @ [CallResign st act]) @
      log_crash gs st_left vw step act action arg" by auto
  then show ?thesis by blast
qed (use assms in simp_all)

lemma dump_alone:
  "\<exists>pre st' vw' action args.
     log_crash gs st vw step act a b = pre @ log_crash gs st' vw' step act action args"
  by (metis append_Nil)

lemma turn_error_dumped:
  fixes w :: "('d, 'r) world"
  assumes "turn env cfg rules gs st vw step act w = Stop (Thrown err) evs w'"
  shows "(\<exists>e. err = Uncaught e) \<or>
         (\<exists>pre st' vw' action args. evs = pre @ log_crash gs st' vw' step act action args)"
proof (cases rule: turn_cases [of vw env cfg rules gs st step act w])
  case (with_arg acts0 acts action w1 arg w2)
  with assms have "take_action rules gs st (vw\<lparr>actions := Some acts\<rparr>) step act acts action
      (descriptor_of acts action) arg w2 = Stop (Thrown err) evs w'" by simp
  from take_action_error_dumped [OF this] show ?thesis by blast
next
  case (without_arg acts0 acts action w1)
  with assms have "take_action rules gs st (vw\<lparr>actions := Some acts\<rparr>) step act acts action
      (descriptor_of acts action) JNull w1 = Stop (Thrown err) evs w'" by simp
  from take_action_error_dumped [OF this] show ?thesis by blast
qed (use assms in \<open>auto simp: dump_alone\<close>)


lemma fuzz_loop_error_dumped:
  fixes w :: "('d, 'r) world"
  assumes "outcome (fuzz_loop env cfg rules gs st step w) = Thrown err"
  shows "(\<exists>e. err = Uncaught e) \<or> ends_with_dump (fuzz_loop env cfg rules gs st step w)"
  using assms
proof (induction st step w rule: fuzz_loop_induct [where env = env and cfg = cfg and rules = rules and gs = gs])
  case (turn st step w)
  note o = turn.prems
  show ?case
  proof (cases rule: fuzz_loop_cases [of cfg env w rules gs st step])
    case short
    with o show ?thesis by simp
  next
    case (role_throws e)
    with o show ?thesis by auto
  next
    case (bound act w1)
    then have "ends_with_dump (fuzz_loop env cfg rules gs st step w)"
      unfolding ends_with_dump_def
      by (intro exI [of _ "[CallView st act]"] exI [of _ gs] exI [of _ st] exI [of _ st]
          exI [of _ step] exI [of _ "RULES_view rules st act"] exI [of _ act] exI [of _ JUndefined]) simp
    then show ?thesis ..
  next
    case (game_over act w1)
    with o show ?thesis by simp
  next
    case (stopped act w1 out evs w2)
    with o have "turn env cfg rules gs st (RULES_view rules st act) step act w1 = Stop (Thrown err) evs w2"
      by simp
    from turn_error_dumped [OF this] show ?thesis
    proof
      assume "\<exists>e. err = Uncaught e"
      then show ?thesis ..
    next
      assume "\<exists>pre st' vw' action args. evs = pre @ log_crash gs st' vw' step act action args"
      then obtain pre st' vw' action args where "evs = pre @ log_crash gs st' vw' step act action args"
        by blast
      with stopped(6) have "ends_with_dump (fuzz_loop env cfg rules gs st step w)"
        unfolding ends_with_dump_def
        by (intro exI [of _ "CallView st act # pre"] exI [of _ gs] exI [of _ st] exI [of _ st']
            exI [of _ step] exI [of _ vw'] exI [of _ act] exI [of _ action] exI [of _ args]) simp
      then show ?thesis ..
    qed
  next
    case (continued act w1 st' evs w2)
    with o have "outcome (fuzz_loop env cfg rules gs st' (step + 1) w2) = Thrown err" by simp
    from turn.IH [OF continued(1-5) this] show ?thesis
    proof
      assume "\<exists>e. err = Uncaught e"
      then show ?thesis ..
    next
      assume "ends_with_dump (fuzz_loop env cfg rules gs st' (step + 1) w2)"
      then obtain pre gs' st'' st3 n vw act' action args
        where "at_exit (fuzz_loop env cfg rules gs st' (step + 1) w2) = Some (st'', n)"
          and "trace (fuzz_loop env cfg rules gs st' (step + 1) w2) =
               pre @ log_crash gs' st3 vw n act' action args"
        unfolding ends_with_dump_def by blast
      with continued(6) have "ends_with_dump (fuzz_loop env cfg rules gs st step w)"
        unfolding ends_with_dump_def
        by (intro exI [of _ "CallView st act # evs @ pre"] exI [of _ gs'] exI [of _ st''] exI [of _ st3]
            exI [of _ n] exI [of _ vw] exI [of _ act'] exI [of _ action] exI [of _ args]) simp
      then show ?thesis ..
    qed
  qed
qed

text \<open>
  Every error that a run raises in one of the driver's own classes comes right after a
  dump of \<^verbatim>\<open>log_crash\<close> for the step at exit; the errors that reach the caller
  without a dump are among those that the driver does not raise itself.
\<close>

lemma classified_errors_are_dumped:
  fixes r0 :: 'r and env :: "('d, 'r) env"
  assumes "outcome (fuzz env cfg rules buf r0) = Thrown err"
  shows "(\<exists>e. err = Uncaught e) \<or> ends_with_dump (fuzz env cfg rules buf r0)"
proof (cases rule: fuzz_cases [of cfg env buf rules r0])
  case short
  with assms show ?thesis by simp
next
  case (seed_throws e)
  with assms show ?thesis by auto
next
  case (scenario_throws x w1 e)
  with assms show ?thesis by auto
next
  case (entered x w1 scenario w2)
  let ?gs = "[(''seed'', num x), (''scenario'', scenario), (''options'', JObj [])]"
  let ?l = "fuzz_loop env cfg rules ?gs (RULES_setup rules (num x) scenario []) 0 w2"
  from entered(4) assms have "outcome ?l = Thrown err" by simp
  from fuzz_loop_error_dumped [OF this] show ?thesis
  proof
    assume "\<exists>e. err = Uncaught e"
    then show ?thesis ..
  next
    assume "ends_with_dump ?l"
    then obtain pre gs' st st' n vw act action args
      where "at_exit ?l = Some (st, n)" and "trace ?l = pre @ log_crash gs' st' vw n act action args"
      unfolding ends_with_dump_def by blast
    with entered(4) have "ends_with_dump (fuzz env cfg rules buf r0)"
      unfolding ends_with_dump_def
      by (intro exI [of _ "CallSetup (num x) scenario [] # pre"] exI [of _ gs'] exI [of _ st] exI [of _ st']
          exI [of _ n] exI [of _ vw] exI [of _ act] exI [of _ action] exI [of _ args]) simp
    then show ?thesis ..
  qed
qed

lemma disabled_throws: "disabled v = Inl e \<Longrightarrow> v = JNull \<or> v = JUndefined"
  by (cases v) (auto simp: disabled_def split: if_splits option.splits)

lemma remove_disabled_throws:
  "remove_disabled es acts = Inl e \<Longrightarrow> \<exists>k v. (k, v) \<in> set es \<and> (v = JNull \<or> v = JUndefined)"
proof (induction es arbitrary: acts)
  case Nil
  then show ?case by simp
next
  case (Cons x es)
  obtain key v0 where x: "x = (key, v0)" by (cases x)
  show ?case
  proof (cases "disabled v0")
    case (Inl e')
    from disabled_throws [OF this] x show ?thesis by auto
  next
    case (Inr b)
    with Cons.prems x have "remove_disabled es (if b then AList.delete key acts else acts) = Inl e"
      by simp
    from Cons.IH [OF this] show ?thesis by auto
  qed
qed

lemma set_update_subset: "set (AList.update k v al) \<subseteq> insert (k, v) (set al)"
  by (induction al) auto

lemma normalize_throws_only_on_null:
  assumes "normalize cfg rules acts0 = Inl e"
  shows "\<exists>k v. (k, v) \<in> set acts0 \<and> (v = JNull \<or> v = JUndefined)"
proof -
  let ?es = "add_resign cfg rules (remove_undo cfg acts0)"
  from assms have "remove_disabled ?es ?es = Inl e" by (simp add: normalize_def Let_def)
  from remove_disabled_throws [OF this] obtain k v
    where kv: "(k, v) \<in> set ?es" and n: "v = JNull \<or> v = JUndefined" by blast
  have "set ?es \<subseteq> insert (''_resign'', JNum 1) (set acts0)"
    using set_update_subset [of "''_resign''" "JNum 1" "remove_undo cfg acts0"]
    by (auto simp: add_resign_def remove_undo_def AList.delete_eq split: if_splits)
  with kv n show ?thesis by auto
qed


lemma js_get_returns: "a \<noteq> JNull \<Longrightarrow> a \<noteq> JUndefined \<Longrightarrow> \<exists>v. js_get a k = Inr v"
  by (cases a) (auto split: option.splits)

lemma pick_never_throws:
  assumes "never_throws env" and "a \<noteq> JNull" and "a \<noteq> JUndefined"
  shows "pick env cfg w a \<noteq> Inl e"
proof (cases "RND cfg")
  case False
  with assms(1) show ?thesis
    by (auto simp: pick_def never_throws_def split: sum.splits)
next
  case True
  from js_get_returns [OF assms(2,3)] obtain len where l: "js_get a ''length'' = Inr len"
    by blast
  obtain x r' where r: "random_floor env (rng w) (JNum 1) len = (x, r')"
    by (cases "random_floor env (rng w) (JNum 1) len")
  from js_get_returns [OF assms(2,3)] obtain v where "js_get a (js_key (minus_one x)) = Inr v"
    by blast
  with True l r show ?thesis by (simp add: pick_def rnd_def)
qed

lemma rnd_never_throws:
  assumes "never_throws env"
  shows "rnd env cfg w mn mx \<noteq> Inl e"
  using assms by (auto simp: rnd_def never_throws_def split: sum.splits prod.splits)

lemma pool_not_null: "is_pool a \<Longrightarrow> a \<noteq> JNull \<and> a \<noteq> JUndefined"
  by (auto simp: is_pool_def)

lemma throws_no_null_wraps:
  assumes "throws_no_null rules" and "raised rules ev = Some (e, st)"
  shows "rules_crash e = RulesCrashError e"
proof (rule rules_crash_wraps)
  from assms show "e \<noteq> Value JNull" "e \<noteq> Value JUndefined"
    by (auto simp: throws_no_null_def)
qed

lemma take_action_caught:
  fixes w :: "('d, 'r) world"
  assumes "throws_no_null rules"
  shows "take_action rules gs st vw step act acts action args arg w \<noteq> Stop (Thrown (Uncaught e)) evs w'"
proof (cases rule: take_action_cases [of action rules gs st vw step act acts args arg w])
  case (action_throws e' st_left)
  then have "raised rules (CallAction st act action arg) = Some (e', st_left)"
    by (simp add: raised_def)
  from throws_no_null_wraps [OF assms this] action_throws show ?thesis by simp
next
  case (resign_throws resign e' st_left)
  then have "raised rules (CallResign st act) = Some (e', st_left)"
    by (simp add: raised_def)
  from throws_no_null_wraps [OF assms this] resign_throws show ?thesis by simp
qed simp_all

lemma turn_caught:
  fixes w :: "('d, 'r) world"
  assumes "never_throws env" and "no_null_descriptor rules" and "throws_no_null rules"
  shows "turn env cfg rules gs st (RULES_view rules st act) step act w \<noteq> Stop (Thrown (Uncaught e)) evs w'"
proof (cases rule: turn_cases [of "RULES_view rules st act" env cfg rules gs st step act w])
  case (normalize_throws acts0 e')
  from normalize_throws_only_on_null [OF normalize_throws(2)] normalize_throws(1) assms(2)
  show ?thesis unfolding no_null_descriptor_def by blast
next
  case (pick_throws acts0 acts e')
  with pick_never_throws [OF assms(1), of "JArr (object_keys acts)" cfg w e'] show ?thesis by simp
next
  case (arg_throws acts0 acts action w1 e')
  with pick_never_throws [OF assms(1), of "descriptor_of acts action" cfg w1 e'] pool_not_null
  show ?thesis by blast
qed (simp_all add: take_action_caught [OF assms(3)])

lemma fuzz_loop_caught:
  fixes w :: "('d, 'r) world"
  assumes "never_throws env" and "no_null_descriptor rules" and "throws_no_null rules"
  shows "outcome (fuzz_loop env cfg rules gs st step w) \<noteq> Thrown (Uncaught e)"
proof (induction st step w rule: fuzz_loop_induct [where env = env and cfg = cfg and rules = rules and gs = gs])
  case (turn st step w)
  show ?case
  proof (cases rule: fuzz_loop_cases [of cfg env w rules gs st step])
    case (role_throws e')
    with pick_never_throws [OF assms(1), of "JArr (RULES_roles rules)" cfg w e'] show ?thesis
      by (simp add: resolve_active_def split: if_splits)
  next
    case (stopped act w1 out evs w2)
    with turn_caught [OF assms, of cfg gs st act step w1 e evs w2] show ?thesis by auto
  next
    case (continued act w1 st' evs w2)
    with turn.IH [OF continued(1-5)] show ?thesis by simp
  qed simp_all
qed

text \<open>
  When the byte provider never throws, no descriptor of a view is \<^verbatim>\<open>null\<close> or
  \<^verbatim>\<open>undefined\<close> and the engine throws neither \<^verbatim>\<open>null\<close> nor \<^verbatim>\<open>undefined\<close>, every
  error that a run raises belongs to one of the four classes and comes right after a
  dump.
\<close>

lemma errors_classified_without_null_descriptors:
  fixes r0 :: 'r and env :: "('d, 'r) env"
  assumes "never_throws env" and "no_null_descriptor rules" and "throws_no_null rules"
    and "outcome (fuzz env cfg rules buf r0) = Thrown err"
  shows "(\<forall>e. err \<noteq> Uncaught e) \<and> ends_with_dump (fuzz env cfg rules buf r0)"
proof -
  have "err \<noteq> Uncaught e" for e
  proof (cases rule: fuzz_cases [of cfg env buf rules r0])
    case short
    with assms(4) show ?thesis by simp
  next
    case (seed_throws e')
    with rnd_never_throws [OF assms(1)] show ?thesis by blast
  next
    case (scenario_throws x w1 e')
    with pick_never_throws [OF assms(1), of "JArr (RULES_scenarios rules)" cfg w1 e'] show ?thesis
      by simp
  next
    case (entered x w1 scenario w2)
    with assms(4) fuzz_loop_caught [OF assms(1,2,3), of cfg _ _ 0 w2 e] show ?thesis by auto
  qed
  with classified_errors_are_dumped [OF assms(4)] show ?thesis by blast
qed


text \<open>
  Claim C3 (every error that reaches the caller is one of the four classes and follows
  a dump, also for descriptors \<^verbatim>\<open>null\<close> and \<^verbatim>\<open>undefined\<close>) is not met by the code:
  the test of line 95 reads \<^verbatim>\<open>value.length\<close> of every
  descriptor, which throws a TypeError for \<^verbatim>\<open>null\<close> and \<^verbatim>\<open>undefined\<close>, although
  line 108 expects such descriptors.  On a view whose only action has descriptor
  \<^verbatim>\<open>null\<close> the run ends with that TypeError, which is none of the four classes, and
  its trace holds the calls of \<open>setup\<close> and \<open>view\<close> only: nothing was dumped.
\<close>

theorem null_descriptor_escapes_unclassified:
  "RULES_view null_rules (demo_state 0) (JStr ''Blue'') = demo_view [(''pass'', JNull)] \<and>
   fuzz demo_env demo_cfg null_rules (replicate 32 3) (0 :: nat) =
     \<lparr>outcome = Thrown (Uncaught (TypeError
        (''Cannot read properties of null (reading '' @ [CHR 0x27] @ ''length'' @ [CHR 0x27] @ '')''))),
      trace = [CallSetup (JNum 4) (JStr ''Standard'') [], CallView (demo_state 0) (JStr ''Blue'')],
      at_exit = Some (demo_state 0, 0),
      final_world = \<lparr>data = replicate 30 3, rng = 0\<rparr>\<rparr>"
  by code_simp

text \<open>
  Claim C4 (a pool with a \<^verbatim>\<open>NaN\<close> entry raises the invalid-argument error before an
  argument is chosen) is not met by the code: the loop of line 110 visits the keys of the pool, and the
  keys of an array are its indices, which are never \<^verbatim>\<open>NaN\<close>.  On a view whose only
  action has the pool \<^verbatim>\<open>[NaN]\<close> the check finds nothing, \<^verbatim>\<open>NaN\<close> is picked as the
  argument and handed to the engine, and the run ends normally.
\<close>

theorem nan_in_array_pool_is_not_detected:
  "RULES_view nan_rules (demo_state 0) (JStr ''Blue'') = demo_view [(''move'', JArr [JNaN])] \<and>
   \<not> has_nan_key (JArr [JNaN]) \<and>
   CallAction (demo_state 0) (JStr ''Blue'') (JStr ''move'') JNaN
     \<in> set (trace (fuzz demo_env demo_cfg nan_rules (replicate 32 3) (0 :: nat))) \<and>
   outcome (fuzz demo_env demo_cfg nan_rules (replicate 32 3) (0 :: nat)) = Returned JUndefined"
  by code_simp


section \<open>Reproducibility of deterministic runs\<close>

lemma observable_turn_simps [simp]:
  "observable_turn (Stop out evs w) = Inl (out, evs, data w)"
  "observable_turn (Next st evs w) = Inr (st, evs, data w)"
  by (simp_all add: observable_turn_def)

lemma pick_deterministic:
  assumes "\<not> RND cfg" "same_provider env env'" "data w = data w'"
  shows "observable_draw (pick env cfg w a) = observable_draw (pick env' cfg w' a)"
  using assms
  by (auto simp: pick_def same_provider_def observable_draw_def split: sum.splits)

lemma rnd_deterministic:
  assumes "\<not> RND cfg" "same_provider env env'" "data w = data w'"
  shows "observable_draw (rnd env cfg w mn mx) = observable_draw (rnd env' cfg w' mn mx)"
  using assms
  by (auto simp: rnd_def same_provider_def observable_draw_def split: sum.splits)

lemma take_action_deterministic:
  assumes "data w = data w'"
  shows "observable_turn (take_action rules gs st vw step act acts action args arg w) =
         observable_turn (take_action rules gs st vw step act acts action args arg w')"
  using assms
  by (auto simp: take_action_def observable_turn_def Let_def split: prod.splits sum.splits)

lemma choose_arg_deterministic:
  assumes "\<not> RND cfg" "same_provider env env'" "data w = data w'"
  shows "observable_turn (choose_arg env cfg rules gs st vw step act acts action w) =
         observable_turn (choose_arg env' cfg rules gs st vw step act acts action w')"
proof -
  let ?args = "descriptor_of acts action"
  have p: "observable_draw (pick env cfg w ?args) = observable_draw (pick env' cfg w' ?args)"
    by (rule pick_deterministic [OF assms])
  show ?thesis
  proof (cases "pick env cfg w ?args")
    case (Inl e)
    with p have "pick env' cfg w' ?args = Inl e"
      by (auto simp: observable_draw_def split: sum.splits)
    with Inl assms(3) show ?thesis
      by (simp add: choose_arg_def Let_def take_action_deterministic [OF assms(3)])
  next
    case (Inr x)
    obtain arg w1 where x: "x = (arg, w1)" by (cases x)
    with p Inr obtain w1' where p': "pick env' cfg w' ?args = Inr (arg, w1')" and d: "data w1 = data w1'"
      by (auto simp: observable_draw_def split: sum.splits)
    show ?thesis
      using Inr x p' assms(3)
      by (simp add: choose_arg_def Let_def
          take_action_deterministic [OF assms(3)] take_action_deterministic [OF d])
  qed
qed

lemma turn_deterministic:
  assumes "\<not> RND cfg" "same_provider env env'" "data w = data w'"
  shows "observable_turn (turn env cfg rules gs st vw step act w) =
         observable_turn (turn env' cfg rules gs st vw step act w')"
proof (cases "actions vw")
  case None
  with assms(3) show ?thesis by (simp add: turn_def)
next
  case (Some acts0)
  show ?thesis
  proof (cases "normalize cfg rules acts0")
    case (Inl e)
    with Some assms(3) show ?thesis by (simp add: turn_def)
  next
    case (Inr acts)
    let ?keys = "JArr (object_keys acts)"
    have p: "observable_draw (pick env cfg w ?keys) = observable_draw (pick env' cfg w' ?keys)"
      by (rule pick_deterministic [OF assms])
    show ?thesis
    proof (cases "pick env cfg w ?keys")
      case (Inl e)
      with p have "pick env' cfg w' ?keys = Inl e"
        by (auto simp: observable_draw_def split: sum.splits)
      with Inl Some Inr assms(3) show ?thesis
        by (simp add: turn_def Let_def)
    next
      case r: (Inr x)
      obtain action w1 where x: "x = (action, w1)" by (cases x)
      with p r obtain w1' where p': "pick env' cfg w' ?keys = Inr (action, w1')" and d: "data w1 = data w1'"
        by (auto simp: observable_draw_def split: sum.splits)
      show ?thesis
        using r x p' Some Inr assms(3) choose_arg_deterministic [OF assms(1,2) d]
        by (simp add: turn_def Let_def)
    qed
  qed
qed


lemma resolve_active_deterministic:
  assumes "\<not> RND cfg" "same_provider env env'" "data w = data w'"
  shows "observable_draw (resolve_active env cfg rules st w) =
         observable_draw (resolve_active env' cfg rules st w')"
  using pick_deterministic [OF assms] assms(3)
  by (simp add: resolve_active_def observable_draw_def)

lemma observable_leave [simp]:
  "observable (leave out evs st step w) = (out, evs, Some (st, step), data w)"
  by (simp add: observable_def leave_def)

lemma observable_prepend:
  "observable r = observable r' \<Longrightarrow> observable (prepend evs r) = observable (prepend evs r')"
  by (simp add: observable_def prepend_def)

lemma fuzz_loop_deterministic:
  assumes det: "\<not> RND cfg" and same: "same_provider env env'" and d: "data w = data w'"
  shows "observable (fuzz_loop env cfg rules gs st step w) =
         observable (fuzz_loop env' cfg rules gs st step w')"
  using det same d
proof (induction env cfg rules gs st step w arbitrary: w' rule: fuzz_loop.induct)
  case (1 env cfg rules gs st step w)
  note det = \<open>\<not> RND cfg\<close> and same = \<open>same_provider env env'\<close> and d = \<open>data w = data w'\<close>
  have rem: "remainingBytes env' (data w') = remainingBytes env (data w)"
    using same d by (simp add: same_provider_def)
  note unfold = fuzz_loop.simps [of env cfg rules gs st step w]
    fuzz_loop.simps [of env' cfg rules gs st step w']
  show ?case
  proof (cases "remainingBytes env (data w) < 16")
    case True
    with det rem d show ?thesis
      by (simp add: unfold)
  next
    case enough: False
    have ra: "observable_draw (resolve_active env cfg rules st w) =
              observable_draw (resolve_active env' cfg rules st w')"
      by (rule resolve_active_deterministic [OF det same d])
    show ?thesis
    proof (cases "resolve_active env cfg rules st w")
      case (Inl e)
      with ra have "resolve_active env' cfg rules st w' = Inl e"
        by (auto simp: observable_draw_def split: sum.splits)
      with Inl enough rem d show ?thesis
        by (simp add: unfold)
    next
      case (Inr x)
      obtain act w1 where x: "x = (act, w1)" by (cases x)
      with ra Inr obtain w1' where ra': "resolve_active env' cfg rules st w' = Inr (act, w1')"
        and d1: "data w1 = data w1'"
        by (auto simp: observable_draw_def split: sum.splits)
      let ?vw = "RULES_view rules st act"
      have tn: "observable_turn (turn env cfg rules gs st ?vw step act w1) =
                observable_turn (turn env' cfg rules gs st ?vw step act w1')"
        by (rule turn_deterministic [OF det same d1])
      show ?thesis
      proof (cases "MAX_STEPS cfg < step \<or> state st = JStr ''game_over''")
        case True
        with Inr x ra' enough rem d1 show ?thesis
          by (auto simp: unfold Let_def)
      next
        case running: False
        show ?thesis
        proof (cases "turn env cfg rules gs st ?vw step act w1")
          case (Stop out evs w2)
          with tn obtain w2' where "turn env' cfg rules gs st ?vw step act w1' = Stop out evs w2'"
            and "data w2 = data w2'"
            by (cases "turn env' cfg rules gs st ?vw step act w1'") auto
          with Stop Inr x ra' enough rem running show ?thesis
            by (simp add: unfold Let_def)
        next
          case (Next st' evs w2)
          with tn obtain w2' where t': "turn env' cfg rules gs st ?vw step act w1' = Next st' evs w2'"
            and d2: "data w2 = data w2'"
            by (cases "turn env' cfg rules gs st ?vw step act w1'") auto
          have "observable (fuzz_loop env cfg rules gs st' (step + 1) w2) =
                observable (fuzz_loop env' cfg rules gs st' (step + 1) w2')"
            using "1.IH" [OF _ Inr x [symmetric] refl _ _ Next det same d2] enough running det
            by simp
          then have "observable (prepend (CallView st act # evs)
                        (fuzz_loop env cfg rules gs st' (step + 1) w2)) =
                     observable (prepend (CallView st act # evs)
                        (fuzz_loop env' cfg rules gs st' (step + 1) w2'))"
            by (rule observable_prepend)
          then show ?thesis
            using Next t' Inr x ra' enough rem running
            by (simp add: unfold Let_def)
        qed
      qed
    qed
  qed
qed


text \<open>
  Claim C1.  In deterministic mode (\<open>RND\<close> false) a run is a function of the buffer and
  the rules engine alone: two runs on the same buffer with the same rules engine and the
  same byte provider, whatever their random sources and generator states, end the same
  way (same return value or same error), make the same calls into the engine (seed and
  scenario, resolved roles, chosen actions and arguments), write the same dumps, leave
  the loop with the same state and step counter, and leave the provider in the same
  state.  This holds for buffers of every length, in particular for those of at least
  16 bytes.
\<close>

theorem fuzz_deterministic:
  assumes "\<not> RND cfg" and "same_provider env env'"
  shows "observable (fuzz env cfg rules buf r0) = observable (fuzz env' cfg rules buf r0')"
proof -
  let ?w = "\<lparr>data = FuzzedDataProvider env buf, rng = r0\<rparr>"
  let ?w' = "\<lparr>data = FuzzedDataProvider env' buf, rng = r0'\<rparr>"
  have d: "data ?w = data ?w'" using assms(2) by (simp add: same_provider_def)
  have rem: "remainingBytes env' = remainingBytes env"
    using assms(2) by (simp add: same_provider_def)
  have rd: "observable_draw (rnd env cfg ?w (JNum 1) (JNum (2 ^ 35 - 31))) =
            observable_draw (rnd env' cfg ?w' (JNum 1) (JNum (2 ^ 35 - 31)))"
    by (rule rnd_deterministic [OF assms d])
  show ?thesis
  proof (cases "remainingBytes env (FuzzedDataProvider env buf) < 16")
    case True
    with assms(1) rem d show ?thesis
      by (simp add: fuzz_def observable_def)
  next
    case enough: False
    show ?thesis
    proof (cases "rnd env cfg ?w (JNum 1) (JNum (2 ^ 35 - 31))")
      case (Inl e)
      with rd have "rnd env' cfg ?w' (JNum 1) (JNum (2 ^ 35 - 31)) = Inl e"
        by (auto simp: observable_draw_def split: sum.splits)
      with Inl enough rem d show ?thesis
        by (simp add: fuzz_def observable_def)
    next
      case (Inr p)
      obtain x w1 where p: "p = (x, w1)" by (cases p)
      with rd Inr obtain w1' where rd': "rnd env' cfg ?w' (JNum 1) (JNum (2 ^ 35 - 31)) = Inr (x, w1')"
        and d1: "data w1 = data w1'"
        by (auto simp: observable_draw_def split: sum.splits)
      have pk: "observable_draw (pick env cfg w1 (JArr (RULES_scenarios rules))) =
                observable_draw (pick env' cfg w1' (JArr (RULES_scenarios rules)))"
        by (rule pick_deterministic [OF assms d1])
      show ?thesis
      proof (cases "pick env cfg w1 (JArr (RULES_scenarios rules))")
        case (Inl e)
        with pk have "pick env' cfg w1' (JArr (RULES_scenarios rules)) = Inl e"
          by (auto simp: observable_draw_def split: sum.splits)
        with Inl Inr p rd' enough rem d d1 show ?thesis
          by (simp add: fuzz_def observable_def)
      next
        case q: (Inr y)
        obtain scenario w2 where y: "y = (scenario, w2)" by (cases y)
        with pk q obtain w2' where pk': "pick env' cfg w1' (JArr (RULES_scenarios rules)) = Inr (scenario, w2')"
          and d2: "data w2 = data w2'"
          by (auto simp: observable_draw_def split: sum.splits)
        show ?thesis
          using q y pk' Inr p rd' enough rem d
            observable_prepend [OF fuzz_loop_deterministic [OF assms d2]]
          by (simp add: fuzz_def Let_def)
      qed
    qed
  qed
qed


theorem fuzz_deterministic_witness:
  "\<not> RND demo_cfg \<and> same_provider demo_env demo_env2 \<and>
   observable (fuzz demo_env demo_cfg demo_rules (replicate 32 3) 0) =
   observable (fuzz demo_env2 demo_cfg demo_rules (replicate 32 3) 5)"
proof -
  have a: "\<not> RND demo_cfg" by (simp add: demo_cfg_def)
  have b: "same_provider demo_env demo_env2"
    by (simp add: same_provider_def demo_env_def demo_env2_def)
  show ?thesis using a b fuzz_deterministic [OF a b] by simp
qed

section \<open>Insufficient input\<close>

text \<open>
  Claim C2.  In deterministic mode, when the provider built from a buffer of fewer than
  16 bytes reports the buffer's length as its remaining bytes, \<open>fuzz\<close> returns
  \<open>-1\<close> at once: the trace is empty (no draw reached the engine, nothing was logged,
  no file was written) and the provider and the generator are untouched.
\<close>

theorem fuzz_insufficient_input:
  assumes "\<not> RND cfg"
    and "remainingBytes env (FuzzedDataProvider env buf) = length buf"
    and "length buf < 16"
  shows "fuzz env cfg rules buf r0 =
         \<lparr>outcome = Returned (JNum (- 1)), trace = [], at_exit = None,
          final_world = \<lparr>data = FuzzedDataProvider env buf, rng = r0\<rparr>\<rparr>"
  using assms by (simp add: fuzz_def)

theorem fuzz_insufficient_input_witness:
  "\<not> RND demo_cfg \<and>
   remainingBytes demo_env (FuzzedDataProvider demo_env (replicate 15 0)) = length (replicate 15 (0 :: byte)) \<and>
   length (replicate 15 (0 :: byte)) < 16 \<and>
   fuzz demo_env demo_cfg demo_rules (replicate 15 0) (0 :: nat) =
     \<lparr>outcome = Returned (JNum (- 1)), trace = [], at_exit = None,
      final_world = \<lparr>data = FuzzedDataProvider demo_env (replicate 15 0), rng = 0\<rparr>\<rparr>"
proof -
  have a: "\<not> RND demo_cfg" by (simp add: demo_cfg_def)
  have b: "remainingBytes demo_env (FuzzedDataProvider demo_env (replicate 15 0)) =
           length (replicate 15 (0 :: byte))"
    by (simp add: demo_env_def)
  have c: "length (replicate 15 (0 :: byte)) < 16" by simp
  show ?thesis
    using a b c fuzz_insufficient_input [OF a b c, of demo_rules 0] by simp
qed

end
